theory Spec2Isabelle
  imports Main "HOL-Library.AList"
begin

section \<open>JSON values and their textual form\<close>

text \<open>
  The operation executor (\<^verbatim>\<open>operation-executor.server.ts\<close>) stores tool parameters,
  tool results and context values as plain JavaScript values that came out of
  \<^verbatim>\<open>JSON.parse\<close> or out of a tool. They are modelled by the datatype \<open>json\<close>.
  Modelling decisions:
  \<^item> numbers are integers (\<open>JNum\<close>), printed in decimal; fractions and exponents are
    outside the model, and \<open>parse_number\<close> rejects them; integers are unbounded, where
    JavaScript rounds beyond \<open>2\<^sup>5\<^sup>3\<close>;
  \<^item> an object is the list of its properties in enumeration order, with distinct keys
    (\<open>JSON_parse\<close> builds only such lists: a repeated key overwrites in place);
  \<^item> strings are lists of 8-bit characters; a \<^verbatim>\<open>\uXXXX\<close> escape above \<^verbatim>\<open>00FF\<close> is
    rejected by the parser (the serialiser only ever emits \<^verbatim>\<open>\u00XX\<close>);
  \<^item> \<^verbatim>\<open>undefined\<close> is the absence of a value (\<open>None\<close>), and the prototype chain of
    objects is not modelled: a context has its own properties only. In JavaScript a
    placeholder that names an inherited property of the context object is not left
    verbatim (\<^verbatim>\<open>constructor\<close> and \<^verbatim>\<open>toString\<close> make the resolver throw a
    \<^verbatim>\<open>TypeError\<close>, \<^verbatim>\<open>__proto__\<close> is replaced by the empty text); such keys are outside
    the model.
\<close>

datatype json =
    JNull
  | JBool bool
  | JNum int
  | JStr string
  | JArr "json list"
  | JObj "(string \<times> json) list"

text \<open>The decimal text of an integer, as a template literal and \<^verbatim>\<open>JSON.stringify\<close> print it.\<close>

function show_nat :: "nat \<Rightarrow> string" where
  "show_nat n = (if n < 10 then [''0123456789'' ! n]
                 else show_nat (n div 10) @ [''0123456789'' ! (n mod 10)])"
  by pat_completeness auto
termination
  by (relation "measure id") auto

definition show_int :: "int \<Rightarrow> string" where
  "show_int i = (if i < 0 then CHR ''-'' # show_nat (nat (- i)) else show_nat (nat i))"

text \<open>
  \<^verbatim>\<open>JSON.stringify\<close>: a string is quoted, with the quote, the backslash and the control
  characters escaped; arrays and objects are written without white space.
\<close>

definition hex_digit :: "nat \<Rightarrow> char" where
  "hex_digit n = ''0123456789abcdef'' ! n"

definition escape_char :: "char \<Rightarrow> string" where
  "escape_char c =
     (if c = CHR 0x22 then [CHR 0x5C, CHR 0x22]
      else if c = CHR 0x5C then [CHR 0x5C, CHR 0x5C]
      else if c = CHR 0x08 then [CHR 0x5C, CHR ''b'']
      else if c = CHR 0x0C then [CHR 0x5C, CHR ''f'']
      else if c = CHR 0x0A then [CHR 0x5C, CHR ''n'']
      else if c = CHR 0x0D then [CHR 0x5C, CHR ''r'']
      else if c = CHR 0x09 then [CHR 0x5C, CHR ''t'']
      else if of_char c < (32::nat)
        then [CHR 0x5C, CHR ''u'', CHR ''0'', CHR ''0'',
              hex_digit (of_char c div 16), hex_digit (of_char c mod 16)]
      else [c])"

definition quote :: "string \<Rightarrow> string" where
  "quote s = CHR 0x22 # concat (map escape_char s) @ [CHR 0x22]"

fun join :: "string \<Rightarrow> string list \<Rightarrow> string" where
  "join sep [] = []"
| "join sep [x] = x"
| "join sep (x # y # ys) = x @ sep @ join sep (y # ys)"

fun JSON_stringify :: "json \<Rightarrow> string" where
  "JSON_stringify JNull = ''null''"
| "JSON_stringify (JBool b) = (if b then ''true'' else ''false'')"
| "JSON_stringify (JNum n) = show_int n"
| "JSON_stringify (JStr s) = quote s"
| "JSON_stringify (JArr xs) = ''['' @ join '','' (map JSON_stringify xs) @ '']''"
| "JSON_stringify (JObj kvs) =
     ''{'' @ join '','' (map (\<lambda>kv. quote (fst kv) @ '':'' @ JSON_stringify (snd kv)) kvs) @ ''}''"

declare show_nat.simps [simp del]

text \<open>
  The context of a plan (\<^verbatim>\<open>Record<string, any>\<close>) is an association list; only lookups
  by key are ever made on it.
\<close>

type_synonym op_context = "(string \<times> json) list"

text \<open>\<^verbatim>\<open>.slice(1, -1)\<close>: the text without its first and its last character.\<close>

definition slice_1_m1 :: "string \<Rightarrow> string" where
  "slice_1_m1 s = butlast (tl s)"

text \<open>
  The regular expression \<^verbatim>\<open>/{{([^}]+)}}/g\<close>. \<open>match_placeholder s\<close> is its match at the
  head of \<open>s\<close>: two opening braces, the longest non-empty run of characters other than
  the closing brace (the captured key), two closing braces; it returns the key and the
  text behind the match. The run is followed by a closing brace or by the end of the
  text, so giving back characters of the run never yields another match.
  \<open>replace_placeholders\<close> is \<^verbatim>\<open>String.prototype.replace\<close> with this expression and the
  callback of \<^verbatim>\<open>processStepParameters\<close>: the text is scanned from left to right; a match
  is replaced (by the sliced text of the context value, or by itself when the context
  has no such key) and the scan goes on behind it.
\<close>

definition match_placeholder :: "string \<Rightarrow> (string \<times> string) option" where
  "match_placeholder s =
     (case s of
        a # b # t \<Rightarrow>
          (if a = CHR ''{'' \<and> b = CHR ''{'' then
             (let key = takeWhile (\<lambda>c. c \<noteq> CHR ''}'') t;
                  after = dropWhile (\<lambda>c. c \<noteq> CHR ''}'') t
              in if key \<noteq> [] \<and> take 2 after = ''}}'' then Some (key, drop 2 after) else None)
           else None)
      | _ \<Rightarrow> None)"

lemma match_placeholder_shorter:
  "match_placeholder s = Some (key, rest) \<Longrightarrow> length rest < length s"
proof -
  assume m: "match_placeholder s = Some (key, rest)"
  then obtain a b t where s: "s = a # b # t"
    by (auto simp: match_placeholder_def split: list.splits)
  from m s have "rest = drop 2 (dropWhile (\<lambda>c. c \<noteq> CHR ''}'') t)"
    by (auto simp: match_placeholder_def Let_def split: if_splits)
  moreover have "length (dropWhile (\<lambda>c. c \<noteq> CHR ''}'') t) \<le> length t"
    by (rule length_dropWhile_le)
  ultimately show ?thesis using s by simp
qed

function replace_placeholders :: "op_context \<Rightarrow> string \<Rightarrow> string" where
  "replace_placeholders ctx [] = []"
| "replace_placeholders ctx (c # cs) =
     (case match_placeholder (c # cs) of
        Some (key, rest) \<Rightarrow>
          (case map_of ctx key of
             Some v \<Rightarrow> slice_1_m1 (JSON_stringify v)
           | None \<Rightarrow> ''{{'' @ key @ ''}}'') @ replace_placeholders ctx rest
      | None \<Rightarrow> c # replace_placeholders ctx cs)"
  by pat_completeness auto
termination
  by (relation "measure (\<lambda>(ctx, s). length s)") (auto dest: match_placeholder_shorter)

text \<open>
  \<^verbatim>\<open>JSON.parse\<close>, by recursive descent. The functions for values, array elements and
  object members recurse on a fuel argument; a nested call gets one unit less and at
  most two calls are nested per character read, so the fuel \<open>2 * length s + 2\<close> that
  \<open>JSON_parse\<close> supplies is never used up. The message of the \<^verbatim>\<open>SyntaxError\<close> depends on
  the JavaScript engine; the model has one message for all.
\<close>

definition is_ws :: "char \<Rightarrow> bool" where
  "is_ws c = (c = CHR '' '' \<or> c = CHR 0x09 \<or> c = CHR 0x0A \<or> c = CHR 0x0D)"

definition skip_ws :: "string \<Rightarrow> string" where
  "skip_ws s = dropWhile is_ws s"

definition is_digit :: "char \<Rightarrow> bool" where
  "is_digit c = (48 \<le> (of_char c :: nat) \<and> (of_char c :: nat) \<le> 57)"

definition hex_val :: "char \<Rightarrow> nat option" where
  "hex_val c =
     (let n = (of_char c :: nat) in
      if 48 \<le> n \<and> n \<le> 57 then Some (n - 48)
      else if 97 \<le> n \<and> n \<le> 102 then Some (n - 87)
      else if 65 \<le> n \<and> n \<le> 70 then Some (n - 55)
      else None)"

definition hex4 :: "char \<Rightarrow> char \<Rightarrow> char \<Rightarrow> char \<Rightarrow> nat option" where
  "hex4 a b c d =
     (case (hex_val a, hex_val b, hex_val c, hex_val d) of
        (Some w, Some x, Some y, Some z) \<Rightarrow> Some (((w * 16 + x) * 16 + y) * 16 + z)
      | _ \<Rightarrow> None)"

fun parse_string_chars :: "string \<Rightarrow> string \<Rightarrow> (string \<times> string) option" where
  "parse_string_chars acc [] = None"
| "parse_string_chars acc [c] = (if c = CHR 0x22 then Some (rev acc, []) else None)"
| "parse_string_chars acc (c # e # r) =
     (if c = CHR 0x22 then Some (rev acc, e # r)
      else if c = CHR 0x5C then
        (if e = CHR 0x22 \<or> e = CHR 0x5C \<or> e = CHR ''/'' then parse_string_chars (e # acc) r
         else if e = CHR ''b'' then parse_string_chars (CHR 0x08 # acc) r
         else if e = CHR ''f'' then parse_string_chars (CHR 0x0C # acc) r
         else if e = CHR ''n'' then parse_string_chars (CHR 0x0A # acc) r
         else if e = CHR ''r'' then parse_string_chars (CHR 0x0D # acc) r
         else if e = CHR ''t'' then parse_string_chars (CHR 0x09 # acc) r
         else if e = CHR ''u'' then
           (case r of
              h1 # h2 # h3 # h4 # r' \<Rightarrow>
                (case hex4 h1 h2 h3 h4 of
                   Some n \<Rightarrow> if n < 256 then parse_string_chars (char_of n # acc) r' else None
                 | None \<Rightarrow> None)
            | _ \<Rightarrow> None)
         else None)
      else if (of_char c :: nat) < 32 then None
      else parse_string_chars (c # acc) (e # r))"

definition digits_val :: "string \<Rightarrow> int" where
  "digits_val ds = foldl (\<lambda>a c. 10 * a + (int (of_char c) - 48)) 0 ds"

definition parse_digits :: "string \<Rightarrow> (int \<times> string) option" where
  "parse_digits s =
     (case s of
        [] \<Rightarrow> None
      | c # cs \<Rightarrow>
          if c = CHR ''0'' then Some (0, cs)
          else if is_digit c then
            Some (digits_val (c # takeWhile is_digit cs), dropWhile is_digit cs)
          else None)"

definition parse_number :: "string \<Rightarrow> (json \<times> string) option" where
  "parse_number s =
     (case (case s of
              c # cs \<Rightarrow> if c = CHR ''-'' then map_option (apfst uminus) (parse_digits cs)
                        else parse_digits s
            | [] \<Rightarrow> None) of
        None \<Rightarrow> None
      | Some (n, r) \<Rightarrow>
          (case r of
             d # _ \<Rightarrow> if d = CHR ''.'' \<or> d = CHR ''e'' \<or> d = CHR ''E'' then None
                      else Some (JNum n, r)
           | [] \<Rightarrow> Some (JNum n, r)))"

fun parse_value :: "nat \<Rightarrow> string \<Rightarrow> (json \<times> string) option"
  and parse_elements :: "nat \<Rightarrow> json list \<Rightarrow> string \<Rightarrow> (json \<times> string) option"
  and parse_members :: "nat \<Rightarrow> (string \<times> json) list \<Rightarrow> string \<Rightarrow> (json \<times> string) option"
where
  "parse_value 0 s = None"
| "parse_value (Suc n) s =
     (case skip_ws s of
        [] \<Rightarrow> None
      | c # cs \<Rightarrow>
          if c = CHR 0x22 then
            (case parse_string_chars [] cs of
               Some (str, r) \<Rightarrow> Some (JStr str, r)
             | None \<Rightarrow> None)
          else if c = CHR ''['' then
            (case skip_ws cs of
               d # r \<Rightarrow> if d = CHR '']'' then Some (JArr [], r) else parse_elements n [] cs
             | [] \<Rightarrow> None)
          else if c = CHR ''{'' then
            (case skip_ws cs of
               d # r \<Rightarrow> if d = CHR ''}'' then Some (JObj [], r) else parse_members n [] cs
             | [] \<Rightarrow> None)
          else if take 4 (c # cs) = ''true'' then Some (JBool True, drop 3 cs)
          else if take 5 (c # cs) = ''false'' then Some (JBool False, drop 4 cs)
          else if take 4 (c # cs) = ''null'' then Some (JNull, drop 3 cs)
          else parse_number (c # cs))"
| "parse_elements 0 acc s = None"
| "parse_elements (Suc n) acc s =
     (case parse_value n s of
        None \<Rightarrow> None
      | Some (v, r) \<Rightarrow>
          (case skip_ws r of
             d # r' \<Rightarrow>
               if d = CHR '','' then parse_elements n (v # acc) r'
               else if d = CHR '']'' then Some (JArr (rev (v # acc)), r')
               else None
           | [] \<Rightarrow> None))"
| "parse_members 0 acc s = None"
| "parse_members (Suc n) acc s =
     (case skip_ws s of
        q # ks \<Rightarrow>
          if q = CHR 0x22 then
            (case parse_string_chars [] ks of
               None \<Rightarrow> None
             | Some (k, r) \<Rightarrow>
                 (case skip_ws r of
                    col # r1 \<Rightarrow>
                      if col = CHR '':'' then
                        (case parse_value n r1 of
                           None \<Rightarrow> None
                         | Some (v, r2) \<Rightarrow>
                             (case skip_ws r2 of
                                d # r3 \<Rightarrow>
                                  if d = CHR '','' then parse_members n (AList.update k v acc) r3
                                  else if d = CHR ''}'' then Some (JObj (AList.update k v acc), r3)
                                  else None
                              | [] \<Rightarrow> None))
                      else None
                  | [] \<Rightarrow> None))
          else None
      | [] \<Rightarrow> None)"

definition JSON_parse :: "string \<Rightarrow> string + json" where
  "JSON_parse s =
     (case parse_value (2 * length s + 2) s of
        Some (v, r) \<Rightarrow> if skip_ws r = [] then Inr v else Inl ''SyntaxError''
      | None \<Rightarrow> Inl ''SyntaxError'')"

definition processStepParameters :: "json \<Rightarrow> op_context \<Rightarrow> string + json" where
  "processStepParameters params ctx =
     (let paramsStr = JSON_stringify params;
          processedParamsStr = replace_placeholders ctx paramsStr
      in JSON_parse processedParamsStr)"

section \<open>Steps, plans and the external tools\<close>

datatype step_status = Pending | Running | Completed | Failed

datatype operation_status = Planning | Executing | PlanCompleted | PlanFailed | WaitingForInput

text \<open>
  \<^verbatim>\<open>OperationStep\<close> and \<^verbatim>\<open>OperationPlan\<close>. The fields \<^verbatim>\<open>id\<close>, \<^verbatim>\<open>status\<close> and
  \<^verbatim>\<open>context\<close> of the plan are named \<open>plan_id\<close>, \<open>plan_status\<close> and \<open>plan_context\<close>,
  the \<^verbatim>\<open>id\<close> of a step is \<open>step_id\<close>. An optional field is an \<open>option\<close>.
\<close>

record OperationStep =
  step_id :: string
  toolName :: string
  params :: json
  dependsOn :: "string list option"
  status :: step_status
  result :: "json option"
  error :: "string option"
  retryCount :: int
  maxRetries :: int

record OperationPlan =
  plan_id :: string
  steps :: "OperationStep list"
  currentStepIndex :: nat
  plan_status :: operation_status
  plan_context :: op_context
  userMessage :: string
  response :: "string option"

text \<open>
  The three Shopify tools are external. A tool either returns a value or throws; what it
  does may depend on everything that was invoked before. The log of invocations (step
  id, tool name, processed parameters) is the only state outside the plan. A tool that
  returns \<^verbatim>\<open>undefined\<close> behaves as one that returns \<^verbatim>\<open>null\<close>: reading \<^verbatim>\<open>result.error\<close>
  throws a \<^verbatim>\<open>TypeError\<close>.
\<close>

datatype tool_outcome = Returns json | Throws string

type_synonym invocation = "string \<times> string \<times> json"

type_synonym tool_env = "invocation list \<Rightarrow> string \<Rightarrow> json \<Rightarrow> tool_outcome"

record ToolCall =
  call_id :: string
  call_type :: string
  function_name :: string
  function_arguments :: string

text \<open>
  \<^verbatim>\<open>createOperationPlan\<close>: tool calls that are not function calls are dropped; a
  \<^verbatim>\<open>JSON.parse\<close> that throws aborts the whole construction. The fresh plan id
  (\<^verbatim>\<open>uuidv4()\<close>) is a parameter.
\<close>

fun create_steps :: "ToolCall list \<Rightarrow> string + OperationStep list" where
  "create_steps [] = Inr []"
| "create_steps (toolCall # rest) =
     (if call_type toolCall \<noteq> ''function'' then create_steps rest
      else
        (case JSON_parse (function_arguments toolCall) of
           Inl e \<Rightarrow> Inl e
         | Inr args \<Rightarrow>
             (case create_steps rest of
                Inl e \<Rightarrow> Inl e
              | Inr ss \<Rightarrow>
                  Inr (\<lparr> step_id = call_id toolCall,
                         toolName = function_name toolCall,
                         params = args,
                         dependsOn = None,
                         status = Pending,
                         result = None,
                         error = None,
                         retryCount = 0,
                         maxRetries = 3 \<rparr> # ss))))"

definition createOperationPlan :: "string \<Rightarrow> ToolCall list \<Rightarrow> string \<Rightarrow> string + OperationPlan" where
  "createOperationPlan uuid toolCalls msg =
     (case create_steps toolCalls of
        Inl e \<Rightarrow> Inl e
      | Inr ss \<Rightarrow>
          Inr \<lparr> plan_id = uuid,
                steps = ss,
                currentStepIndex = 0,
                plan_status = Planning,
                plan_context = [],
                userMessage = msg,
                response = None \<rparr>)"

subsection \<open>Reading a tool result\<close>

text \<open>
  \<open>get_field v k\<close> is the property read \<^verbatim>\<open>v.k\<close> for the two names the executor reads,
  \<^verbatim>\<open>error\<close> and \<^verbatim>\<open>data\<close>: a \<^verbatim>\<open>TypeError\<close> on \<^verbatim>\<open>null\<close>, the property of an object,
  and \<^verbatim>\<open>undefined\<close> on every other value.
\<close>

fun get_field :: "json \<Rightarrow> string \<Rightarrow> string + json option" where
  "get_field JNull k = Inl (''Cannot read properties of null (reading '' @ [CHR 0x27] @ k @ [CHR 0x27] @ '')'')"
| "get_field (JObj kvs) k = Inr (map_of kvs k)"
| "get_field v k = Inr None"

fun truthy :: "json \<Rightarrow> bool" where
  "truthy JNull = False"
| "truthy (JBool b) = b"
| "truthy (JNum n) = (n \<noteq> 0)"
| "truthy (JStr s) = (s \<noteq> [])"
| "truthy (JArr xs) = True"
| "truthy (JObj kvs) = True"

text \<open>\<^verbatim>\<open>String(v)\<close>, the message of \<^verbatim>\<open>new Error(v)\<close>.\<close>

fun js_String :: "json \<Rightarrow> string" where
  "js_String JNull = ''null''"
| "js_String (JBool b) = (if b then ''true'' else ''false'')"
| "js_String (JNum n) = show_int n"
| "js_String (JStr s) = s"
| "js_String (JArr xs) = join '','' (map (\<lambda>x. if x = JNull then [] else js_String x) xs)"
| "js_String (JObj kvs) = ''[object Object]''"

subsection \<open>Executing one step\<close>

definition invoke_tool :: "tool_env \<Rightarrow> string \<Rightarrow> string \<Rightarrow> json \<Rightarrow> invocation list
    \<Rightarrow> tool_outcome \<times> invocation list" where
  "invoke_tool tools sid name p log = (tools log name p, log @ [(sid, name, p)])"

text \<open>
  The body of the \<^verbatim>\<open>try\<close> block of \<^verbatim>\<open>executeStep\<close>: \<open>Inl msg\<close> is a thrown error with
  message \<open>msg\<close>, \<open>Inr r\<close> the result of the tool.
\<close>

definition run_tool :: "tool_env \<Rightarrow> string \<Rightarrow> string \<Rightarrow> json \<Rightarrow> op_context \<Rightarrow> invocation list
    \<Rightarrow> (string + json) \<times> invocation list" where
  "run_tool tools sid name ps ctx log =
     (case processStepParameters ps ctx of
        Inl e \<Rightarrow> (Inl e, log)
      | Inr processedParams \<Rightarrow>
          (case (if name = ''execute_query'' then invoke_tool tools sid name processedParams log
                 else if name = ''execute_mutation'' then invoke_tool tools sid name processedParams log
                 else if name = ''introspect_schema'' then invoke_tool tools sid name processedParams log
                 else if name = ''web_search'' then
                   (Returns (JObj [(''error'', JStr ''Web search is not available in the current implementation. Please use introspect_schema instead.'')]), log)
                 else (Throws (''Unknown tool: '' @ name), log)) of
             (Throws msg, log') \<Rightarrow> (Inl msg, log')
           | (Returns res, log') \<Rightarrow>
               (case get_field res ''error'' of
                  Inl typeError \<Rightarrow> (Inl typeError, log')
                | Inr None \<Rightarrow> (Inr res, log')
                | Inr (Some e) \<Rightarrow> if truthy e then (Inl (js_String e), log') else (Inr res, log'))))"

definition executeStep :: "tool_env \<Rightarrow> OperationStep \<Rightarrow> op_context \<Rightarrow> invocation list
    \<Rightarrow> (string + json) \<times> OperationStep \<times> invocation list" where
  "executeStep tools step ctx log =
     (let step1 = step\<lparr>status := Running\<rparr> in
      case run_tool tools (step_id step1) (toolName step1) (params step1) ctx log of
        (Inr res, log') \<Rightarrow> (Inr res, step1\<lparr>status := Completed, result := Some res\<rparr>, log')
      | (Inl msg, log') \<Rightarrow>
          (let step2 = step1\<lparr>retryCount := retryCount step1 + 1\<rparr> in
           if retryCount step2 > maxRetries step2
           then (Inl msg, step2\<lparr>status := Failed, error := Some msg\<rparr>, log')
           else (Inl msg,
                 step2\<lparr>status := Pending,
                       error := Some (''Error (retry '' @ show_int (retryCount step2) @ ''/''
                                      @ show_int (maxRetries step2) @ ''): '' @ msg)\<rparr>,
                 log')))"

subsection \<open>Scheduling\<close>

definition dependency_met :: "OperationStep list \<Rightarrow> string \<Rightarrow> bool" where
  "dependency_met sts depId =
     (case find (\<lambda>s. step_id s = depId) sts of
        None \<Rightarrow> False
      | Some depStep \<Rightarrow> status depStep = Completed)"

text \<open>The body of the scheduler's loop: \<open>True\<close> when the step is returned, not skipped.\<close>

definition is_executable :: "OperationPlan \<Rightarrow> OperationStep \<Rightarrow> bool" where
  "is_executable plan step =
     (if status step = Completed \<or> status step = Running then False
      else
        (case dependsOn step of
           Some deps \<Rightarrow> list_all (dependency_met (steps plan)) deps
         | None \<Rightarrow> True))"

function scan_steps :: "OperationPlan \<Rightarrow> nat \<Rightarrow> nat option" where
  "scan_steps plan i =
     (if i < length (steps plan)
      then (if is_executable plan (steps plan ! i) then Some i else scan_steps plan (Suc i))
      else None)"
  by pat_completeness auto
termination
  by (relation "measure (\<lambda>(plan, i). length (steps plan) - i)") auto

declare scan_steps.simps [simp del]

text \<open>
  \<^verbatim>\<open>getNextExecutableStep\<close> returns a reference to an element of \<^verbatim>\<open>plan.steps\<close>; the
  model returns its index.
\<close>

definition getNextExecutableStep :: "OperationPlan \<Rightarrow> nat option" where
  "getNextExecutableStep plan = scan_steps plan 0"

subsection \<open>Folding a result into the context\<close>

text \<open>
  \<^verbatim>\<open>Object.keys(data)\<close> paired with \<^verbatim>\<open>data[key]\<close>: the properties of an object, the
  indices of an array or of a string, nothing for a number or a boolean.
\<close>

fun own_entries :: "json \<Rightarrow> (string \<times> json) list" where
  "own_entries (JObj kvs) = kvs"
| "own_entries (JArr xs) = map (\<lambda>i. (show_nat i, xs ! i)) [0..<length xs]"
| "own_entries (JStr s) = map (\<lambda>i. (show_nat i, JStr [s ! i])) [0..<length s]"
| "own_entries v = []"

text \<open>
  \<open>store_data\<close> is the body of the two blocks \<^verbatim>\<open>if (... && result.data)\<close> of
  \<^verbatim>\<open>updateOperationContext\<close>. Both results carry the \<^verbatim>\<open>TypeError\<close>, if one is thrown (the
  result is \<^verbatim>\<open>undefined\<close> or \<^verbatim>\<open>null\<close>), beside the context as written so far. Storing
  \<^verbatim>\<open>undefined\<close> under a key makes the key read as absent.
\<close>

definition store_data :: "json option \<Rightarrow> op_context \<Rightarrow> string option \<times> op_context" where
  "store_data res ctx =
     (case res of
        None \<Rightarrow> (Some (''Cannot read properties of undefined (reading '' @ [CHR 0x27] @ ''data'' @ [CHR 0x27] @ '')''), ctx)
      | Some r \<Rightarrow>
          (case get_field r ''data'' of
             Inl typeError \<Rightarrow> (Some typeError, ctx)
           | Inr None \<Rightarrow> (None, ctx)
           | Inr (Some d) \<Rightarrow>
               if truthy d then (None, fold (\<lambda>(k, v). AList.update k v) (own_entries d) ctx)
               else (None, ctx)))"

definition updateOperationContext :: "OperationPlan \<Rightarrow> OperationStep \<Rightarrow> string option \<times> OperationPlan" where
  "updateOperationContext plan step =
     (let ctx0 = (case result step of
                    Some r \<Rightarrow> AList.update (step_id step) r (plan_context plan)
                  | None \<Rightarrow> AList.delete (step_id step) (plan_context plan));
          (e1, ctx1) = (if toolName step = ''execute_query'' then store_data (result step) ctx0
                        else (None, ctx0))
      in case e1 of
           Some e \<Rightarrow> (Some e, plan\<lparr>plan_context := ctx1\<rparr>)
         | None \<Rightarrow>
             (let (e2, ctx2) = (if toolName step = ''execute_mutation''
                                then store_data (result step) ctx1 else (None, ctx1))
              in (e2, plan\<lparr>plan_context := ctx2\<rparr>)))"

subsection \<open>Driving a plan\<close>

definition isOperationComplete :: "OperationPlan \<Rightarrow> bool" where
  "isOperationComplete plan = list_all (\<lambda>step. status step = Completed) (steps plan)"

definition hasFailedSteps :: "OperationPlan \<Rightarrow> bool" where
  "hasFailedSteps plan = list_ex (\<lambda>step. status step = Failed) (steps plan)"

definition set_step :: "OperationPlan \<Rightarrow> nat \<Rightarrow> OperationStep \<Rightarrow> OperationPlan" where
  "set_step plan i step = plan\<lparr>steps := (steps plan)[i := step]\<rparr>"

definition finish_plan :: "OperationPlan \<Rightarrow> OperationPlan" where
  "finish_plan plan =
     (if isOperationComplete plan then plan\<lparr>plan_status := PlanCompleted\<rparr>
      else if hasFailedSteps plan then plan\<lparr>plan_status := PlanFailed\<rparr>
      else plan)"

lemma scan_steps_Some:
  "scan_steps plan k = Some i \<Longrightarrow>
     k \<le> i \<and> i < length (steps plan) \<and> is_executable plan (steps plan ! i) \<and>
     (\<forall>j. k \<le> j \<and> j < i \<longrightarrow> \<not> is_executable plan (steps plan ! j))"
proof (induction plan k rule: scan_steps.induct)
  case (1 plan k)
  show ?case
  proof (cases "k < length (steps plan) \<and> \<not> is_executable plan (steps plan ! k)")
    case True
    with "1.prems" have "scan_steps plan (Suc k) = Some i"
      by (simp add: scan_steps.simps [of plan k])
    with "1.IH" True have ih: "Suc k \<le> i \<and> i < length (steps plan) \<and> is_executable plan (steps plan ! i) \<and>
     (\<forall>j. Suc k \<le> j \<and> j < i \<longrightarrow> \<not> is_executable plan (steps plan ! j))"
      by simp
    show ?thesis
    proof (intro conjI allI impI)
      fix j assume j: "k \<le> j \<and> j < i"
      show "\<not> is_executable plan (steps plan ! j)"
      proof (cases "j = k")
        case True with \<open>k < length (steps plan) \<and> \<not> is_executable plan (steps plan ! k)\<close> show ?thesis by simp
      next
        case False with j ih show ?thesis by simp
      qed
    qed (use ih in simp_all)
  next
    case False
    with "1.prems" show ?thesis
      by (auto simp: scan_steps.simps [of plan k] split: if_splits)
  qed
qed

lemma scan_steps_None:
  "scan_steps plan k = None \<Longrightarrow> k \<le> j \<Longrightarrow> j < length (steps plan) \<Longrightarrow>
     \<not> is_executable plan (steps plan ! j)"
proof (induction plan k rule: scan_steps.induct)
  case (1 plan k)
  from "1.prems" have k: "k < length (steps plan)" by simp
  with "1.prems"(1) have nk: "\<not> is_executable plan (steps plan ! k)" and rest: "scan_steps plan (Suc k) = None"
    by (auto simp: scan_steps.simps [of plan k] split: if_splits)
  show ?case
  proof (cases "j = k")
    case True with nk show ?thesis by simp
  next
    case False
    with "1.prems" have "Suc k \<le> j" by simp
    with "1.IH" k nk rest "1.prems"(3) show ?thesis by simp
  qed
qed

lemma executeStep_Inr:
  "executeStep tools step ctx log = (Inr res, step', log') \<Longrightarrow>
     step' = step\<lparr>status := Completed, result := Some res\<rparr>"
  by (auto simp: executeStep_def Let_def split: prod.splits sum.splits if_splits)

lemma updateOperationContext_steps:
  "updateOperationContext plan step = (e, plan') \<Longrightarrow> steps plan' = steps plan"
  by (auto simp: updateOperationContext_def Let_def split: prod.splits option.splits if_splits)

lemma completing_decreases:
  "i < length xs \<Longrightarrow> status (xs ! i) \<noteq> Completed \<Longrightarrow> status s = Completed \<Longrightarrow>
     length (filter (\<lambda>x. status x \<noteq> Completed) (xs[i := s]))
       < length (filter (\<lambda>x. status x \<noteq> Completed) xs)"
proof (induction xs arbitrary: i)
  case Nil
  then show ?case by simp
next
  case (Cons x xs)
  show ?case
  proof (cases i)
    case 0
    with Cons.prems show ?thesis by (simp add: less_Suc_eq_le)
  next
    case (Suc k)
    with Cons.prems Cons.IH [of k] show ?thesis by simp
  qed
qed

text \<open>
  The \<^verbatim>\<open>while\<close> loop of \<^verbatim>\<open>executeOperationPlan\<close> with the code behind it (\<open>finish_plan\<close>).
  The step is mutated in place (\<open>set_step\<close>). \<^verbatim>\<open>updateOperationContext\<close> is called inside
  the \<^verbatim>\<open>try\<close> block: if it throws, the \<^verbatim>\<open>catch\<close> block returns the plan. The loop ends
  because every iteration that does not return completes one more step.
\<close>

function drive_loop :: "tool_env \<Rightarrow> OperationPlan \<Rightarrow> invocation list \<Rightarrow> OperationPlan \<times> invocation list" where
  "drive_loop tools plan log =
     (case getNextExecutableStep plan of
        None \<Rightarrow> (finish_plan plan, log)
      | Some i \<Rightarrow>
          (case executeStep tools (steps plan ! i) (plan_context plan) log of
             (Inr res, nextStep, log') \<Rightarrow>
               (case updateOperationContext (set_step plan i nextStep) nextStep of
                  (None, plan') \<Rightarrow> drive_loop tools plan' log'
                | (Some e, plan') \<Rightarrow>
                    (if status nextStep = Failed then plan'\<lparr>plan_status := PlanFailed\<rparr> else plan', log'))
           | (Inl msg, nextStep, log') \<Rightarrow>
               (if status nextStep = Failed
                then ((set_step plan i nextStep)\<lparr>plan_status := PlanFailed\<rparr>, log')
                else (set_step plan i nextStep, log'))))"
  by pat_completeness auto
termination
proof (relation "measure (\<lambda>(tools, plan, log). length (filter (\<lambda>x. status x \<noteq> Completed) (steps plan)))")
  show "wf (measure (\<lambda>(tools, plan, log). length (filter (\<lambda>x. status x \<noteq> Completed) (steps plan))))"
    by simp
next
  fix tools :: tool_env and plan :: OperationPlan and log :: "invocation list"
    and i x y res nextStep log' xa e plan' z
  assume sel: "getNextExecutableStep plan = Some i"
    and ex: "(x, y) = executeStep tools (steps plan ! i) (plan_context plan) log"
    and y: "(nextStep, log') = y" and x: "x = Inr res"
    and up: "(xa, plan') = updateOperationContext (set_step plan i nextStep) nextStep"
  from sel have i: "i < length (steps plan)" and exi: "is_executable plan (steps plan ! i)"
    using scan_steps_Some [of plan 0 i] by (simp_all add: getNextExecutableStep_def)
  from exi have nc: "status (steps plan ! i) \<noteq> Completed"
    by (auto simp: is_executable_def split: if_splits)
  from ex y x have "executeStep tools (steps plan ! i) (plan_context plan) log = (Inr res, nextStep, log')"
    by simp
  then have c: "status nextStep = Completed"
    by (auto dest: executeStep_Inr)
  from up have "steps plan' = (steps plan)[i := nextStep]"
    using updateOperationContext_steps [of "set_step plan i nextStep" nextStep xa plan']
    by (simp add: set_step_def)
  with completing_decreases [OF i nc c]
  show "((tools, plan', log'), (tools, plan, log))
         \<in> measure (\<lambda>(tools, plan, log). length (filter (\<lambda>x. status x \<noteq> Completed) (steps plan)))"
    by simp
qed

declare drive_loop.simps [simp del]

definition executeOperationPlan :: "tool_env \<Rightarrow> OperationPlan \<Rightarrow> invocation list
    \<Rightarrow> OperationPlan \<times> invocation list" where
  "executeOperationPlan tools plan log = drive_loop tools (plan\<lparr>plan_status := Executing\<rparr>) log"

text \<open>Driving a plan \<open>n\<close> times in a row, against the same tools.\<close>

fun drive_times :: "tool_env \<Rightarrow> nat \<Rightarrow> OperationPlan \<times> invocation list
    \<Rightarrow> OperationPlan \<times> invocation list" where
  "drive_times tools 0 st = st"
| "drive_times tools (Suc n) st =
     (case drive_times tools n st of (plan, log) \<Rightarrow> executeOperationPlan tools plan log)"

section \<open>The parameter resolver\<close>

text \<open>
  With an empty context nothing is substituted: the parameters only make the round trip
  through their textual form.
\<close>

lemma match_placeholder_text:
  assumes "match_placeholder s = Some (key, rest)"
  shows "s = ''{{'' @ key @ ''}}'' @ rest"
proof -
  from assms obtain a b t where s: "s = a # b # t"
    by (auto simp: match_placeholder_def split: list.splits)
  define after where "after = dropWhile (\<lambda>c. c \<noteq> CHR ''}'') t"
  from assms s have ab: "a = CHR ''{''" "b = CHR ''{''"
    and key: "key = takeWhile (\<lambda>c. c \<noteq> CHR ''}'') t"
    and tk: "take 2 after = ''}}''" and rest: "rest = drop 2 after"
    by (auto simp: match_placeholder_def Let_def after_def split: if_splits)
  have "t = key @ after"
    by (simp add: key after_def)
  moreover have "after = take 2 after @ drop 2 after"
    by simp
  ultimately have "t = key @ ''}}'' @ rest"
    using tk rest by simp
  with s ab show ?thesis by simp
qed

lemma replace_placeholders_empty_context: "replace_placeholders [] s = s"
proof (induction "[] :: op_context" s rule: replace_placeholders.induct)
  case 1
  show ?case by simp
next
  case (2 c cs)
  show ?case
  proof (cases "match_placeholder (c # cs)")
    case None
    with 2 show ?thesis by simp
  next
    case (Some kr)
    obtain key rest where kr: "kr = (key, rest)" by (cases kr)
    from Some kr have "c # cs = ''{{'' @ key @ ''}}'' @ rest"
      by (auto dest: match_placeholder_text)
    moreover from 2(2) Some kr have "replace_placeholders [] rest = rest"
      by simp
    ultimately show ?thesis
      using Some kr by simp
  qed
qed

lemma resolver_empty_context:
  "processStepParameters ps [] = JSON_parse (JSON_stringify ps)"
  by (simp add: processStepParameters_def replace_placeholders_empty_context)

lemma resolver_string_value:
  "processStepParameters (JObj [(''id'', JStr ''{{foo}}'')]) [(''foo'', JStr ''bar'')]
     = Inr (JObj [(''id'', JStr ''bar'')])"
  by code_simp

lemma resolver_placeholder_left_verbatim:
  "processStepParameters (JObj [(''id'', JStr ''{{foo}}'')]) []
     = Inr (JObj [(''id'', JStr ''{{foo}}'')])"
  by code_simp

lemma string_value_substitution:
  "slice_1_m1 (JSON_stringify (JStr s)) = concat (map escape_char s)"
  by (simp add: slice_1_m1_def quote_def)

text \<open>
  A string value is substituted correctly whatever it contains: the sliced text is the
  escaped content of the string, and the parser reads it back.
\<close>

lemma hex_val_hex_digit_all: "\<forall>k < 16. hex_val (hex_digit k) = Some k"
  by (simp add: eval_nat_numeral All_less_Suc hex_val_def hex_digit_def)

lemma hex_val_hex_digit: "k < 16 \<Longrightarrow> hex_val (hex_digit k) = Some k"
  using hex_val_hex_digit_all by blast

lemma hex_val_zero: "hex_val CHR ''0'' = Some 0"
  by (simp add: hex_val_def)

lemma parse_string_chars_quote:
  "parse_string_chars acc (CHR 0x22 # rest) = Some (rev acc, rest)"
  by (cases rest) simp_all

lemma parse_string_chars_escape:
  assumes "t \<noteq> []"
  shows "parse_string_chars acc (escape_char c @ t) = parse_string_chars (c # acc) t"
proof -
  from assms obtain e r where t: "t = e # r" by (cases t) auto
  consider (q) "c = CHR 0x22" | (b) "c = CHR 0x5C" | (c8) "c = CHR 0x08" | (cC) "c = CHR 0x0C"
    | (cA) "c = CHR 0x0A" | (cD) "c = CHR 0x0D" | (c9) "c = CHR 0x09"
    | (ctl) "c \<noteq> CHR 0x22" "c \<noteq> CHR 0x5C" "c \<noteq> CHR 0x08" "c \<noteq> CHR 0x0C" "c \<noteq> CHR 0x0A"
        "c \<noteq> CHR 0x0D" "c \<noteq> CHR 0x09" "of_char c < (32::nat)"
    | (plain) "c \<noteq> CHR 0x22" "c \<noteq> CHR 0x5C" "\<not> of_char c < (32::nat)"
    by blast
  then show ?thesis
  proof cases
    case ctl
    have d: "of_char c div 16 < (16::nat)" and m: "of_char c mod 16 < (16::nat)"
      using ctl(8) by simp_all
    have "hex4 CHR ''0'' CHR ''0'' (hex_digit (of_char c div 16)) (hex_digit (of_char c mod 16))
            = Some (of_char c)"
      by (simp add: hex4_def hex_val_zero hex_val_hex_digit [OF d] hex_val_hex_digit [OF m])
    moreover have "(of_char c :: nat) < 256" using ctl(8) by simp
    ultimately show ?thesis
      using ctl by (simp add: escape_char_def t)
  next
    case plain
    then show ?thesis
      by (auto simp: escape_char_def t)
  qed (simp_all add: escape_char_def t)
qed

lemma parse_string_chars_escaped:
  "parse_string_chars acc (concat (map escape_char v) @ CHR 0x22 # rest) = Some (rev acc @ v, rest)"
proof (induction v arbitrary: acc)
  case Nil
  show ?case by (simp add: parse_string_chars_quote)
next
  case (Cons c v)
  have "parse_string_chars acc (concat (map escape_char (c # v)) @ CHR 0x22 # rest)
          = parse_string_chars acc (escape_char c @ (concat (map escape_char v) @ CHR 0x22 # rest))"
    by simp
  also have "\<dots> = parse_string_chars (c # acc) (concat (map escape_char v) @ CHR 0x22 # rest)"
    by (rule parse_string_chars_escape) simp
  also have "\<dots> = Some (rev (c # acc) @ v, rest)"
    by (rule Cons.IH)
  finally show ?case by simp
qed


lemma stringify_placeholder_params:
  "JSON_stringify (JObj [(''id'', JStr ''{{foo}}'')])
     = [CHR ''{'', CHR 0x22, CHR ''i'', CHR ''d'', CHR 0x22, CHR '':'', CHR 0x22,
        CHR ''{'', CHR ''{'', CHR ''f'', CHR ''o'', CHR ''o'', CHR ''}'', CHR ''}'', CHR 0x22, CHR ''}'']"
  by code_simp

lemma replace_in_placeholder_params:
  "replace_placeholders [(''foo'', JStr v)]
     [CHR ''{'', CHR 0x22, CHR ''i'', CHR ''d'', CHR 0x22, CHR '':'', CHR 0x22,
      CHR ''{'', CHR ''{'', CHR ''f'', CHR ''o'', CHR ''o'', CHR ''}'', CHR ''}'', CHR 0x22, CHR ''}'']
     = [CHR ''{'', CHR 0x22, CHR ''i'', CHR ''d'', CHR 0x22, CHR '':'', CHR 0x22]
        @ concat (map escape_char v) @ [CHR 0x22, CHR ''}'']"
  by (simp add: match_placeholder_def slice_1_m1_def quote_def)

lemma parse_substituted:
  "parse_value (Suc (Suc (Suc k)))
     ([CHR ''{'', CHR 0x22, CHR ''i'', CHR ''d'', CHR 0x22, CHR '':'', CHR 0x22]
        @ concat (map escape_char v) @ [CHR 0x22, CHR ''}''])
     = Some (JObj [(''id'', JStr v)], [])"
  by (simp add: skip_ws_def is_ws_def parse_string_chars_escaped)

lemma resolver_any_string_value:
  "processStepParameters (JObj [(''id'', JStr ''{{foo}}'')]) [(''foo'', JStr v)]
     = Inr (JObj [(''id'', JStr v)])"
proof -
  let ?t = "[CHR ''{'', CHR 0x22, CHR ''i'', CHR ''d'', CHR 0x22, CHR '':'', CHR 0x22]
        @ concat (map escape_char v) @ [CHR 0x22, CHR ''}'']"
  have "2 * length ?t + 2 = Suc (Suc (Suc (2 * length ?t - 1)))"
    by simp
  then have "parse_value (2 * length ?t + 2) ?t = Some (JObj [(''id'', JStr v)], [])"
    by (simp only: parse_substituted)
  then have "JSON_parse ?t = Inr (JObj [(''id'', JStr v)])"
    by (simp add: JSON_parse_def skip_ws_def)
  then show ?thesis
    by (simp only: processStepParameters_def Let_def stringify_placeholder_params
        replace_in_placeholder_params)
qed

text \<open>
  Claim C6. The resolver turns \<^verbatim>\<open>{"id": "{{foo}}"}\<close> with context \<^verbatim>\<open>{"foo": "bar"}\<close> into
  \<^verbatim>\<open>{"id": "bar"}\<close> (\<open>resolver_string_value\<close>, and \<open>resolver_any_string_value\<close> for
  every string in place of \<^verbatim>\<open>bar\<close>) and leaves the placeholder verbatim when
  the context is empty (\<open>resolver_placeholder_left_verbatim\<close>). A numeric context
  value, however, is not substituted as its own text: \<^verbatim>\<open>JSON.stringify(123)\<close> is
  \<^verbatim>\<open>123\<close>, without quotes, and \<^verbatim>\<open>.slice(1, -1)\<close>, meant to remove the quotes, removes
  the first and the last digit. With context \<^verbatim>\<open>{"foo": 123}\<close> the resolved parameters
  are \<^verbatim>\<open>{"id": "2"}\<close>.
\<close>

theorem resolver_numeric_value:
  "processStepParameters (JObj [(''id'', JStr ''{{foo}}'')]) [(''foo'', JNum 123)]
     = Inr (JObj [(''id'', JStr ''2'')])"
  by code_simp

section \<open>The scheduler\<close>

text \<open>
  The scheduler as the specification words it: a step is runnable when it is neither
  completed nor running and every step id it depends on names a step of the plan whose
  status is \<^verbatim>\<open>completed\<close>.
\<close>

definition declared_dependencies :: "OperationStep \<Rightarrow> string list" where
  "declared_dependencies step = (case dependsOn step of None \<Rightarrow> [] | Some deps \<Rightarrow> deps)"

definition spec_runnable :: "OperationPlan \<Rightarrow> OperationStep \<Rightarrow> bool" where
  "spec_runnable plan step =
     (status step \<noteq> Completed \<and> status step \<noteq> Running \<and>
      (\<forall>depId \<in> set (declared_dependencies step).
         \<exists>t \<in> set (steps plan). step_id t = depId \<and> status t = Completed))"

lemma dependency_met_iff:
  assumes "distinct (map step_id sts)"
  shows "dependency_met sts depId \<longleftrightarrow> (\<exists>t \<in> set sts. step_id t = depId \<and> status t = Completed)"
proof (cases "find (\<lambda>s. step_id s = depId) sts")
  case None
  then have "\<forall>t \<in> set sts. step_id t \<noteq> depId"
    by (simp add: find_None_iff)
  with None show ?thesis
    by (auto simp: dependency_met_def)
next
  case (Some d)
  then have d: "d \<in> set sts" "step_id d = depId"
    by (auto simp: find_Some_iff)
  from assms have inj: "inj_on step_id (set sts)"
    by (simp add: distinct_map)
  have uniq: "t = d" if "t \<in> set sts" "step_id t = depId" for t
    using inj that d by (auto dest: inj_onD)
  have "dependency_met sts depId \<longleftrightarrow> status d = Completed"
    using Some by (simp add: dependency_met_def)
  moreover have "(\<exists>t \<in> set sts. step_id t = depId \<and> status t = Completed) \<longleftrightarrow> status d = Completed"
    using d uniq by blast
  ultimately show ?thesis by simp
qed

lemma is_executable_iff_spec:
  assumes "distinct (map step_id (steps plan))"
  shows "is_executable plan step = spec_runnable plan step"
  by (simp add: is_executable_def spec_runnable_def declared_dependencies_def list_all_iff
      dependency_met_iff [OF assms] Ball_def split: option.splits)

text \<open>Concrete steps and plans for the examples below.\<close>

definition mk_step :: "string \<Rightarrow> string \<Rightarrow> json \<Rightarrow> string list option \<Rightarrow> step_status \<Rightarrow> OperationStep" where
  "mk_step sid name ps deps st =
     \<lparr> step_id = sid, toolName = name, params = ps, dependsOn = deps, status = st,
       result = None, error = None, retryCount = 0, maxRetries = 3 \<rparr>"

definition mk_plan :: "OperationStep list \<Rightarrow> OperationPlan" where
  "mk_plan sts =
     \<lparr> plan_id = ''plan'', steps = sts, currentStepIndex = 0, plan_status = Planning,
       plan_context = [], userMessage = ''go'', response = None \<rparr>"

definition waiting_plan :: OperationPlan where
  "waiting_plan = mk_plan
     [mk_step ''a'' ''execute_query'' (JObj []) None Completed,
      mk_step ''b'' ''execute_mutation'' (JObj []) (Some [''c'']) Pending,
      mk_step ''c'' ''execute_query'' (JObj []) (Some [''a'']) Pending]"

text \<open>
  Claim C8. In a plan whose step ids are distinct, \<^verbatim>\<open>getNextExecutableStep\<close> returns the
  first step in declaration order that is runnable in the sense of the specification
  (not completed, not running, every declared dependency present and completed), and
  none exactly when no step is runnable. So a step that depends on a step which is not
  completed is never returned; it is skipped, its status untouched.
\<close>

theorem scheduler_selection:
  assumes "distinct (map step_id (steps plan))"
  shows "case getNextExecutableStep plan of
           None \<Rightarrow> \<forall>s \<in> set (steps plan). \<not> spec_runnable plan s
         | Some i \<Rightarrow> i < length (steps plan) \<and> spec_runnable plan (steps plan ! i) \<and>
                     (\<forall>j < i. \<not> spec_runnable plan (steps plan ! j))"
proof (cases "getNextExecutableStep plan")
  case None
  have "\<not> spec_runnable plan s" if "s \<in> set (steps plan)" for s
  proof -
    from that obtain j where "j < length (steps plan)" "steps plan ! j = s"
      by (auto simp: in_set_conv_nth)
    with None scan_steps_None [of plan 0 j] show ?thesis
      by (simp add: getNextExecutableStep_def is_executable_iff_spec [OF assms])
  qed
  with None show ?thesis by simp
next
  case (Some i)
  with scan_steps_Some [of plan 0 i] show ?thesis
    by (simp add: getNextExecutableStep_def is_executable_iff_spec [OF assms])
qed

theorem scheduler_selection_witness:
  "distinct (map step_id (steps waiting_plan)) \<and>
   getNextExecutableStep waiting_plan = Some 2 \<and>
   spec_runnable waiting_plan (steps waiting_plan ! 2) \<and>
   \<not> spec_runnable waiting_plan (steps waiting_plan ! 1)"
proof -
  have d: "distinct (map step_id (steps waiting_plan))"
    by (simp add: waiting_plan_def mk_plan_def mk_step_def)
  have n: "getNextExecutableStep waiting_plan = Some 2"
    by code_simp
  from scheduler_selection [OF d] d n show ?thesis
    by simp
qed

section \<open>Unknown tools\<close>

definition failing_tools :: tool_env where
  "failing_tools = (\<lambda>log name p. Throws ''timeout'')"

definition unknown_tool_step :: OperationStep where
  "unknown_tool_step = mk_step ''s1'' ''send_email'' (JObj []) None Pending"

lemma empty_params_resolve: "processStepParameters (JObj []) ctx = Inr (JObj [])"
proof -
  have "replace_placeholders ctx ''{}'' = ''{}''"
    by (simp add: match_placeholder_def)
  moreover have "JSON_parse ''{}'' = Inr (JObj [])"
    by code_simp
  ultimately show ?thesis
    by (simp add: processStepParameters_def)
qed

lemma show_int_1: "show_int 1 = ''1''"
  by (simp add: show_int_def show_nat.simps)

lemma show_int_3: "show_int 3 = ''3''"
  by (simp add: show_int_def show_nat.simps)

text \<open>
  Claim C2 says that a step with an unrecognised tool name fails immediately, without
  retry. \<^verbatim>\<open>executeStep\<close> throws \<^verbatim>\<open>Unknown tool\<close> inside its \<^verbatim>\<open>try\<close> block, and the
  \<^verbatim>\<open>catch\<close> block treats every error alike: a fresh step with \<^verbatim>\<open>maxRetries = 3\<close> and
  the tool name \<^verbatim>\<open>send_email\<close> is \<^verbatim>\<open>pending\<close> with \<^verbatim>\<open>retryCount = 1\<close> after its first
  execution.
\<close>

theorem unknown_tool_counterexample:
  "status (fst (snd (executeStep failing_tools unknown_tool_step [] []))) = Pending \<and>
   retryCount (fst (snd (executeStep failing_tools unknown_tool_step [] []))) = 1"
  by (simp add: executeStep_def run_tool_def unknown_tool_step_def mk_step_def empty_params_resolve)

text \<open>
  Claim C2, amended. Executing a step whose tool name is none of \<^verbatim>\<open>execute_query\<close>,
  \<^verbatim>\<open>execute_mutation\<close>, \<^verbatim>\<open>introspect_schema\<close>, \<^verbatim>\<open>web_search\<close> invokes no tool and takes
  the ordinary retry path: the error (\<^verbatim>\<open>Unknown tool: <name>\<close>, or the resolver's own
  error) is thrown, \<^verbatim>\<open>retryCount\<close> is incremented, and the step becomes \<^verbatim>\<open>failed\<close> only
  if the new \<^verbatim>\<open>retryCount\<close> exceeds \<^verbatim>\<open>maxRetries\<close>; otherwise it is \<^verbatim>\<open>pending\<close> again with
  the annotated error.
\<close>

theorem unknown_tool_retry_path:
  assumes "toolName step \<notin> {''execute_query'', ''execute_mutation'', ''introspect_schema'', ''web_search''}"
  shows "executeStep tools step ctx log =
     (let msg = (case processStepParameters (params step) ctx of
                   Inl e \<Rightarrow> e
                 | Inr ps \<Rightarrow> ''Unknown tool: '' @ toolName step);
          n = retryCount step + 1
      in (Inl msg,
          if n > maxRetries step
          then step\<lparr>status := Failed, retryCount := n, error := Some msg\<rparr>
          else step\<lparr>status := Pending, retryCount := n,
                    error := Some (''Error (retry '' @ show_int n @ ''/''
                                   @ show_int (maxRetries step) @ ''): '' @ msg)\<rparr>,
          log))"
  using assms
  by (cases "processStepParameters (params step) ctx")
     (simp_all add: executeStep_def run_tool_def Let_def)

theorem unknown_tool_retry_path_witness:
  "toolName unknown_tool_step \<notin> {''execute_query'', ''execute_mutation'', ''introspect_schema'', ''web_search''} \<and>
   executeStep failing_tools unknown_tool_step [] [] =
     (Inl ''Unknown tool: send_email'',
      unknown_tool_step\<lparr>status := Pending, retryCount := 1,
        error := Some ''Error (retry 1/3): Unknown tool: send_email''\<rparr>,
      [])"
proof -
  have h: "toolName unknown_tool_step \<notin> {''execute_query'', ''execute_mutation'', ''introspect_schema'', ''web_search''}"
    by (simp add: unknown_tool_step_def mk_step_def)
  have p: "params unknown_tool_step = JObj []" "toolName unknown_tool_step = ''send_email''"
    "retryCount unknown_tool_step = 0" "maxRetries unknown_tool_step = 3"
    by (simp_all add: unknown_tool_step_def mk_step_def)
  from unknown_tool_retry_path [OF h, of failing_tools "[]" "[]"] h show ?thesis
    by (simp add: p empty_params_resolve show_int_1 show_int_3 Let_def)
qed

section \<open>The context accumulator\<close>

lemma map_of_fold_update:
  "map_of (fold (\<lambda>(k, v). AList.update k v) es ctx) = map_of ctx ++ map_of (rev es)"
proof (induction es arbitrary: ctx)
  case Nil
  show ?case by simp
next
  case (Cons e es)
  obtain k v where e: "e = (k, v)" by (cases e)
  have "map_of (fold (\<lambda>(k, v). AList.update k v) (e # es) ctx)
          = map_of (AList.update k v ctx) ++ map_of (rev es)"
    using Cons.IH [of "AList.update k v ctx"] e by simp
  also have "\<dots> = (map_of ctx)(k \<mapsto> v) ++ map_of (rev es)"
    by (simp add: update_conv')
  also have "\<dots> = map_of ctx ++ map_of (rev (e # es))"
    by (simp add: e map_add_assoc [symmetric] map_add_upd)
  finally show ?case .
qed

text \<open>The entries that \<^verbatim>\<open>updateOperationContext\<close> copies out of the data payload.\<close>

definition copied_entries :: "OperationStep \<Rightarrow> json \<Rightarrow> (string \<times> json) list" where
  "copied_entries step res =
     (if toolName step = ''execute_query'' \<or> toolName step = ''execute_mutation'' then
        (case get_field res ''data'' of
           Inr (Some d) \<Rightarrow> if truthy d then own_entries d else []
         | _ \<Rightarrow> [])
      else [])"

lemma store_data_result:
  assumes "res \<noteq> JNull"
  shows "\<exists>ctx'. store_data (Some res) ctx = (None, ctx') \<and>
           map_of ctx' = map_of ctx ++ map_of (rev (case get_field res ''data'' of
                 Inr (Some d) \<Rightarrow> if truthy d then own_entries d else []
               | _ \<Rightarrow> []))"
proof (cases "get_field res ''data''")
  case (Inl e)
  with assms show ?thesis by (cases res) simp_all
next
  case (Inr d)
  then show ?thesis
    by (cases d) (simp_all add: store_data_def map_of_fold_update)
qed

definition product_result :: json where
  "product_result = JObj [(''data'', JObj [(''productId'', JStr ''X'')])]"

definition product_step :: OperationStep where
  "product_step = (mk_step ''call_1'' ''execute_query'' (JObj []) None Completed)\<lparr>result := Some product_result\<rparr>"

definition introspect_step :: OperationStep where
  "introspect_step = (mk_step ''call_2'' ''introspect_schema'' (JObj []) None Completed)\<lparr>result := Some product_result\<rparr>"

definition clash_step :: OperationStep where
  "clash_step = (mk_step ''product'' ''execute_query'' (JObj []) None Completed)
     \<lparr>result := Some (JObj [(''data'', JObj [(''product'', JStr ''P'')])])\<rparr>"

text \<open>
  Claim C7 says that the data payload of every completed step is copied into the
  context, and that the context maps the step id to the full result. The copy is
  guarded by the tool name: the payload of an \<^verbatim>\<open>introspect_schema\<close> step is not copied.
  And the payload is written after the step id: a payload key equal to the step id
  replaces the full result.
\<close>

theorem context_fold_counterexample:
  "map_of (plan_context (snd (updateOperationContext (mk_plan [introspect_step]) introspect_step))) ''productId''
     = None \<and>
   map_of (plan_context (snd (updateOperationContext (mk_plan [clash_step]) clash_step))) ''product''
     = Some (JStr ''P'')"
  by (simp add: updateOperationContext_def store_data_def introspect_step_def clash_step_def
      product_result_def mk_plan_def mk_step_def)

text \<open>
  What a fold writes. Folding a step with a result (not \<^verbatim>\<open>null\<close>) never throws and changes
  only the context. The new context maps every top-level key of the data payload to its
  payload value when the tool is \<^verbatim>\<open>execute_query\<close> or \<^verbatim>\<open>execute_mutation\<close> and the
  payload is truthy (later entries win); it maps the step id to the full result unless
  the payload has that key; every other key keeps its value.
\<close>

lemma updateOperationContext_fold:
  assumes "result step = Some res" and "res \<noteq> JNull"
  shows "\<exists>plan'. updateOperationContext plan step = (None, plan') \<and>
           plan' = plan\<lparr>plan_context := plan_context plan'\<rparr> \<and>
           (\<forall>k. map_of (plan_context plan') k =
              (case map_of (rev (copied_entries step res)) k of
                 Some v \<Rightarrow> Some v
               | None \<Rightarrow> if k = step_id step then Some res else map_of (plan_context plan) k))"
proof -
  let ?ctx0 = "AList.update (step_id step) res (plan_context plan)"
  from store_data_result [OF assms(2), of ?ctx0]
  obtain ctx' where st: "store_data (Some res) ?ctx0 = (None, ctx')"
    and m: "map_of ctx' = map_of ?ctx0 ++ map_of (rev (case get_field res ''data'' of
                 Inr (Some d) \<Rightarrow> if truthy d then own_entries d else []
               | _ \<Rightarrow> []))"
    by blast
  show ?thesis
  proof (cases "toolName step = ''execute_query'' \<or> toolName step = ''execute_mutation''")
    case True
    then have u: "updateOperationContext plan step = (None, plan\<lparr>plan_context := ctx'\<rparr>)"
      using assms(1) st by (auto simp: updateOperationContext_def)
    have "map_of ctx' k =
              (case map_of (rev (copied_entries step res)) k of
                 Some v \<Rightarrow> Some v
               | None \<Rightarrow> if k = step_id step then Some res else map_of (plan_context plan) k)" for k
      using True m by (simp add: copied_entries_def map_add_def update_conv' split: option.splits)
    with u show ?thesis by simp
  next
    case False
    then have u: "updateOperationContext plan step = (None, plan\<lparr>plan_context := ?ctx0\<rparr>)"
      using assms(1) by (simp add: updateOperationContext_def)
    have "map_of ?ctx0 k =
              (case map_of (rev (copied_entries step res)) k of
                 Some v \<Rightarrow> Some v
               | None \<Rightarrow> if k = step_id step then Some res else map_of (plan_context plan) k)" for k
      using False by (simp add: copied_entries_def update_conv')
    with u show ?thesis by simp
  qed
qed

text \<open>
  The context that a fold has written is the context that the next step is resolved
  against. In the plan \<open>lookup_then_update\<close>, step \<^verbatim>\<open>A\<close> is a query whose result carries
  \<^verbatim>\<open>{data: {variantId: "gid://1"}}\<close> and step \<^verbatim>\<open>B\<close>, which depends on \<^verbatim>\<open>A\<close>, is a mutation
  with the parameter \<^verbatim>\<open>"{{variantId}}"\<close>: one drive runs \<^verbatim>\<open>A\<close>, then \<^verbatim>\<open>B\<close> with the
  parameter \<^verbatim>\<open>"gid://1"\<close>, and completes the plan.
\<close>

definition echo_tools :: tool_env where
  "echo_tools = (\<lambda>log name p. if name = ''execute_query''
                                 then Returns (JObj [(''data'', JObj [(''variantId'', JStr ''gid://1'')])])
                                 else Returns (JObj [(''data'', JObj [(''updated'', p)])]))"

definition lookup_then_update :: OperationPlan where
  "lookup_then_update = mk_plan
     [mk_step ''A'' ''execute_query'' (JObj [(''query'', JStr ''variants'')]) None Pending,
      mk_step ''B'' ''execute_mutation'' (JObj [(''id'', JStr ''{{variantId}}'')]) (Some [''A'']) Pending]"

lemma context_reaches_next_step:
  "snd (executeOperationPlan echo_tools lookup_then_update [])
     = [(''A'', ''execute_query'', JObj [(''query'', JStr ''variants'')]),
        (''B'', ''execute_mutation'', JObj [(''id'', JStr ''gid://1'')])] \<and>
   plan_status (fst (executeOperationPlan echo_tools lookup_then_update [])) = PlanCompleted \<and>
   map_of (plan_context (fst (executeOperationPlan echo_tools lookup_then_update []))) ''variantId''
     = Some (JStr ''gid://1'')"
  by code_simp

section \<open>Driving a finished plan\<close>

lemma scan_steps_none_if:
  "(\<And>j. k \<le> j \<Longrightarrow> j < length (steps plan) \<Longrightarrow> \<not> is_executable plan (steps plan ! j))
     \<Longrightarrow> scan_steps plan k = None"
proof (induction plan k rule: scan_steps.induct)
  case (1 plan k)
  show ?case
  proof (cases "k < length (steps plan)")
    case True
    with "1.prems" [of k] have nk: "\<not> is_executable plan (steps plan ! k)" by simp
    have "scan_steps plan (Suc k) = None"
      using "1.IH" [OF True nk] "1.prems" by simp
    with True nk show ?thesis
      by (simp add: scan_steps.simps [of plan k])
  next
    case False
    then show ?thesis by (simp add: scan_steps.simps [of plan k])
  qed
qed

lemma completed_plan_has_no_next:
  assumes "isOperationComplete plan"
  shows "getNextExecutableStep plan = None"
proof -
  have "\<not> is_executable plan (steps plan ! j)" if "j < length (steps plan)" for j
    using assms that by (simp add: isOperationComplete_def list_all_length is_executable_def)
  then show ?thesis
    by (simp add: getNextExecutableStep_def scan_steps_none_if)
qed

definition completed_plan :: OperationPlan where
  "completed_plan = (mk_plan [product_step])
     \<lparr>plan_status := PlanCompleted, plan_context := [(''call_1'', product_result), (''productId'', JStr ''X'')]\<rparr>"

definition query_step :: OperationStep where
  "query_step = mk_step ''q'' ''execute_query'' (JObj []) None Pending"

definition failed_plan :: OperationPlan where
  "failed_plan = (mk_plan [query_step\<lparr>status := Failed, retryCount := 4, error := Some ''timeout''\<rparr>])
     \<lparr>plan_status := PlanFailed\<rparr>"

lemma failed_plan_reached:
  "drive_times failing_tools 4 (mk_plan [query_step], [])
     = (failed_plan, replicate 4 (''q'', ''execute_query'', JObj []))"
  by code_simp

text \<open>
  Claim C3 says that driving a plan that is already \<^verbatim>\<open>failed\<close> changes nothing and
  invokes no tool. \<^verbatim>\<open>executeOperationPlan\<close> has no guard on the status of the plan, and
  the scheduler skips only \<^verbatim>\<open>completed\<close> and \<^verbatim>\<open>running\<close> steps: the failed step of
  \<open>failed_plan\<close> (the plan that four drives against a tool that always throws produce,
  \<open>failed_plan_reached\<close>) is executed a fifth time.
\<close>

theorem failed_plan_drive_counterexample:
  "plan_status failed_plan = PlanFailed \<and>
   executeOperationPlan failing_tools failed_plan (replicate 4 (''q'', ''execute_query'', JObj []))
     = (failed_plan\<lparr>steps := [query_step\<lparr>status := Failed, retryCount := 5, error := Some ''timeout''\<rparr>]\<rparr>,
        replicate 5 (''q'', ''execute_query'', JObj []))"
  by code_simp

text \<open>
  Claim C3, amended. Driving a plan whose status is \<^verbatim>\<open>completed\<close> and whose steps are all
  \<^verbatim>\<open>completed\<close> returns the plan unchanged and invokes no tool.
\<close>

theorem completed_plan_drive_noop:
  assumes "isOperationComplete plan" and "plan_status plan = PlanCompleted"
  shows "executeOperationPlan tools plan log = (plan, log)"
proof -
  let ?p = "plan\<lparr>plan_status := Executing\<rparr>"
  from assms(1) have c: "isOperationComplete ?p"
    by (simp add: isOperationComplete_def)
  then have "getNextExecutableStep ?p = None"
    by (rule completed_plan_has_no_next)
  then have "drive_loop tools ?p log = (finish_plan ?p, log)"
    by (simp add: drive_loop.simps [of tools ?p log])
  moreover have "finish_plan ?p = plan"
    using c assms(2) by (simp add: finish_plan_def)
  ultimately show ?thesis
    by (simp add: executeOperationPlan_def)
qed

theorem completed_plan_drive_noop_witness:
  "isOperationComplete completed_plan \<and> plan_status completed_plan = PlanCompleted \<and>
   executeOperationPlan failing_tools completed_plan [] = (completed_plan, [])"
proof -
  have a: "isOperationComplete completed_plan"
    by (simp add: isOperationComplete_def completed_plan_def mk_plan_def product_step_def mk_step_def)
  have b: "plan_status completed_plan = PlanCompleted"
    by (simp add: completed_plan_def)
  from completed_plan_drive_noop [OF a b, of failing_tools "[]"] a b show ?thesis
    by simp
qed

section \<open>Retries\<close>

text \<open>What the scheduler reads of a step.\<close>

definition sched_view :: "OperationStep \<Rightarrow> string \<times> bool \<times> bool \<times> string list option" where
  "sched_view s = (step_id s, status s = Completed, status s = Running, dependsOn s)"

lemma dependency_met_cong:
  "map sched_view xs = map sched_view ys \<Longrightarrow> dependency_met xs d = dependency_met ys d"
proof (induction xs arbitrary: ys)
  case Nil
  then show ?case by simp
next
  case (Cons x xs)
  then obtain y ys' where ys: "ys = y # ys'" by (cases ys) auto
  with Cons.prems have v: "sched_view x = sched_view y" and r: "map sched_view xs = map sched_view ys'"
    by simp_all
  from Cons.IH [OF r] have ih: "dependency_met xs d = dependency_met ys' d" .
  from v have "step_id x = step_id y" "(status x = Completed) = (status y = Completed)"
    by (simp_all add: sched_view_def)
  with ih ys show ?case
    by (simp add: dependency_met_def)
qed

lemma is_executable_cong:
  assumes "map sched_view (steps p) = map sched_view (steps q)" and "sched_view s = sched_view t"
  shows "is_executable p s = is_executable q t"
proof -
  from assms(2) have "(status s = Completed) = (status t = Completed)"
    "(status s = Running) = (status t = Running)" "dependsOn s = dependsOn t"
    by (simp_all add: sched_view_def)
  moreover have "dependency_met (steps p) = dependency_met (steps q)"
    using dependency_met_cong [OF assms(1)] by (rule ext)
  ultimately show ?thesis
    by (simp add: is_executable_def split: option.splits)
qed

lemma scan_steps_cong:
  assumes "map sched_view (steps p) = map sched_view (steps q)"
  shows "scan_steps p k = scan_steps q k"
  using assms
proof (induction p k rule: scan_steps.induct)
  case (1 p k)
  from "1.prems" have "length (map sched_view (steps p)) = length (map sched_view (steps q))"
    by (rule arg_cong)
  then have len: "length (steps p) = length (steps q)"
    by simp
  show ?case
  proof (cases "k < length (steps p)")
    case True
    from "1.prems" have "map sched_view (steps p) ! k = map sched_view (steps q) ! k"
      by (rule arg_cong)
    with True len have "sched_view (steps p ! k) = sched_view (steps q ! k)"
      by simp
    with "1.prems" have e: "is_executable p (steps p ! k) = is_executable q (steps q ! k)"
      by (rule is_executable_cong)
    show ?thesis
    proof (cases "is_executable p (steps p ! k)")
      case True
      with e \<open>k < length (steps p)\<close> len show ?thesis
        by (simp add: scan_steps.simps [of p k] scan_steps.simps [of q k])
    next
      case False
      with "1.IH" [OF \<open>k < length (steps p)\<close> False "1.prems"] e \<open>k < length (steps p)\<close> len
      show ?thesis
        by (simp add: scan_steps.simps [of p k] scan_steps.simps [of q k])
    qed
  next
    case False
    with len show ?thesis
      by (simp add: scan_steps.simps [of p k] scan_steps.simps [of q k])
  qed
qed

lemma getNextExecutableStep_cong:
  "map sched_view (steps p) = map sched_view (steps q)
     \<Longrightarrow> getNextExecutableStep p = getNextExecutableStep q"
  unfolding getNextExecutableStep_def by (rule scan_steps_cong)

lemma getNextExecutableStep_update:
  assumes "sched_view s' = sched_view (steps plan ! i)" and "steps q = (steps plan)[i := s']"
  shows "getNextExecutableStep q = getNextExecutableStep plan"
proof -
  have "map sched_view (steps q) = (map sched_view (steps plan))[i := sched_view (steps plan ! i)]"
    using assms by (simp add: map_update)
  also have "\<dots> = map sched_view (steps plan)"
  proof (cases "i < length (steps plan)")
    case True
    then have "sched_view (steps plan ! i) = map sched_view (steps plan) ! i" by simp
    then show ?thesis by (simp only: list_update_id)
  next
    case False
    then show ?thesis by (simp add: list_update_beyond)
  qed
  finally show ?thesis by (rule getNextExecutableStep_cong)
qed

lemma getNextExecutableStep_Some:
  assumes "getNextExecutableStep plan = Some i"
  shows "i < length (steps plan)" and "is_executable plan (steps plan ! i)"
    and "status (steps plan ! i) \<noteq> Completed" and "status (steps plan ! i) \<noteq> Running"
proof -
  from assms scan_steps_Some [of plan 0 i]
  show a: "i < length (steps plan)" and b: "is_executable plan (steps plan ! i)"
    by (simp_all add: getNextExecutableStep_def)
  from b show "status (steps plan ! i) \<noteq> Completed" and "status (steps plan ! i) \<noteq> Running"
    by (auto simp: is_executable_def split: if_splits)
qed

subsection \<open>Failing attempts\<close>

definition always_fails :: "tool_env \<Rightarrow> OperationStep \<Rightarrow> bool" where
  "always_fails tools step =
     (\<forall>ctx log. isl (fst (run_tool tools (step_id step) (toolName step) (params step) ctx log)))"

text \<open>What \<^verbatim>\<open>executeStep\<close> leaves of a step when the attempt throws \<open>msg\<close>.\<close>

definition failed_attempt :: "OperationStep \<Rightarrow> string \<Rightarrow> OperationStep" where
  "failed_attempt step msg =
     (if retryCount step + 1 > maxRetries step
      then step\<lparr>status := Failed, retryCount := retryCount step + 1, error := Some msg\<rparr>
      else step\<lparr>status := Pending, retryCount := retryCount step + 1,
                error := Some (''Error (retry '' @ show_int (retryCount step + 1) @ ''/''
                               @ show_int (maxRetries step) @ ''): '' @ msg)\<rparr>)"

lemma executeStep_Inl:
  assumes "run_tool tools (step_id step) (toolName step) (params step) ctx log = (Inl msg, log')"
  shows "executeStep tools step ctx log = (Inl msg, failed_attempt step msg, log')"
  using assms by (simp add: executeStep_def failed_attempt_def Let_def)

lemma always_fails_executeStep:
  assumes "always_fails tools step"
  shows "\<exists>msg log'. executeStep tools step ctx log = (Inl msg, failed_attempt step msg, log')"
proof -
  obtain r log' where rt: "run_tool tools (step_id step) (toolName step) (params step) ctx log = (r, log')"
    by (cases "run_tool tools (step_id step) (toolName step) (params step) ctx log")
  from assms have "isl (fst (run_tool tools (step_id step) (toolName step) (params step) ctx log))"
    unfolding always_fails_def by blast
  with rt have "isl r" by simp
  then obtain msg where "r = Inl msg" by (cases r) auto
  with rt executeStep_Inl show ?thesis by blast
qed

lemma drive_loop_step_fails:
  assumes "getNextExecutableStep plan = Some i"
    and "executeStep tools (steps plan ! i) (plan_context plan) log = (Inl msg, s', log')"
  shows "drive_loop tools plan log =
           (if status s' = Failed then (set_step plan i s')\<lparr>plan_status := PlanFailed\<rparr>
            else set_step plan i s', log')"
  using assms by (simp add: drive_loop.simps [of tools plan log])

definition after_failures :: "OperationStep \<Rightarrow> nat \<Rightarrow> string \<Rightarrow> OperationStep" where
  "after_failures step k msg =
     (if k = 0 then step
      else if int k > maxRetries step
      then step\<lparr>status := Failed, retryCount := int k, error := Some msg\<rparr>
      else step\<lparr>status := Pending, retryCount := int k,
                error := Some (''Error (retry '' @ show_int (int k) @ ''/''
                               @ show_int (maxRetries step) @ ''): '' @ msg)\<rparr>)"

lemma failed_attempt_after_failures:
  "retryCount step = 0 \<Longrightarrow>
     failed_attempt (after_failures step k msg) msg' = after_failures step (Suc k) msg'"
  by (simp add: failed_attempt_def after_failures_def add.commute)

lemma after_failures_view:
  "status step = Pending \<Longrightarrow> sched_view (after_failures step k msg) = sched_view step"
  by (simp add: after_failures_def sched_view_def)

lemma always_fails_after_failures:
  "always_fails tools step \<Longrightarrow> always_fails tools (after_failures step k msg)"
  by (simp add: always_fails_def after_failures_def)

lemma run_tool_log:
  assumes "run_tool tools sid name ps ctx log = (r, log')"
  shows "log' = log \<or> (\<exists>p. log' = log @ [(sid, name, p)])"
  using assms
  by (auto simp: run_tool_def invoke_tool_def split: sum.splits if_splits tool_outcome.splits option.splits)

lemma executeStep_log:
  assumes "executeStep tools step ctx log = (r, s', log')"
  shows "\<forall>e \<in> set log'. e \<in> set log \<or> fst e = step_id step"
proof -
  obtain r0 where "run_tool tools (step_id step) (toolName step) (params step) ctx log = (r0, log')"
    using assms by (auto simp: executeStep_def Let_def split: prod.splits sum.splits if_splits)
  from run_tool_log [OF this] show ?thesis by auto
qed

lemma repeated_failure:
  assumes sel: "getNextExecutableStep plan = Some i"
    and pend: "status (steps plan ! i) = Pending"
    and zero: "retryCount (steps plan ! i) = 0"
    and fails: "always_fails tools (steps plan ! i)"
  shows "\<exists>msg lg. drive_times tools k (plan, log) =
           (plan\<lparr>steps := (steps plan)[i := after_failures (steps plan ! i) k msg],
                  plan_status := (if k = 0 then plan_status plan
                                  else if int k > maxRetries (steps plan ! i) then PlanFailed
                                  else Executing)\<rparr>, lg) \<and>
           (\<forall>e \<in> set lg. e \<in> set log \<or> fst e = step_id (steps plan ! i))"
proof (induction k)
  case 0
  show ?case by (simp add: after_failures_def)
next
  case (Suc k)
  let ?s = "steps plan ! i"
  from Suc obtain msg lg where
    dk: "drive_times tools k (plan, log) =
           (plan\<lparr>steps := (steps plan)[i := after_failures ?s k msg],
                  plan_status := (if k = 0 then plan_status plan
                                  else if int k > maxRetries ?s then PlanFailed
                                  else Executing)\<rparr>, lg)"
    and lgk: "\<forall>e \<in> set lg. e \<in> set log \<or> fst e = step_id ?s"
    by blast
  let ?sk = "after_failures ?s k msg"
  let ?pe = "plan\<lparr>steps := (steps plan)[i := ?sk], plan_status := Executing\<rparr>"
  from sel have i: "i < length (steps plan)"
    by (rule getNextExecutableStep_Some)
  have "getNextExecutableStep ?pe = getNextExecutableStep plan"
    by (rule getNextExecutableStep_update [of ?sk plan i]) (simp_all add: after_failures_view pend)
  with sel have sel': "getNextExecutableStep ?pe = Some i" by simp
  have nth: "steps ?pe ! i = ?sk" using i by simp
  from always_fails_executeStep [OF always_fails_after_failures [OF fails], of k msg "plan_context ?pe" lg]
  obtain msg' lg' where
    ex: "executeStep tools ?sk (plan_context ?pe) lg = (Inl msg', failed_attempt ?sk msg', lg')"
    by blast
  have fa: "failed_attempt ?sk msg' = after_failures ?s (Suc k) msg'"
    by (rule failed_attempt_after_failures [OF zero])
  have st: "status (after_failures ?s (Suc k) msg') = Failed \<longleftrightarrow> int (Suc k) > maxRetries ?s"
    by (simp add: after_failures_def)
  from ex nth have ex': "executeStep tools (steps ?pe ! i) (plan_context ?pe) lg
                           = (Inl msg', after_failures ?s (Suc k) msg', lg')"
    by (simp add: fa)
  have "drive_loop tools ?pe lg =
          (plan\<lparr>steps := (steps plan)[i := after_failures ?s (Suc k) msg'],
                 plan_status := (if int (Suc k) > maxRetries ?s then PlanFailed else Executing)\<rparr>, lg')"
    using drive_loop_step_fails [OF sel' ex'] st by (simp add: set_step_def)
  moreover have "drive_times tools (Suc k) (plan, log) = drive_loop tools ?pe lg"
    by (simp add: dk executeOperationPlan_def)
  moreover have "\<forall>e \<in> set lg'. e \<in> set log \<or> fst e = step_id ?s"
  proof
    fix e assume "e \<in> set lg'"
    with executeStep_log [OF ex] have "e \<in> set lg \<or> fst e = step_id ?sk" by blast
    moreover have "step_id ?sk = step_id ?s" by (simp add: after_failures_def)
    ultimately show "e \<in> set log \<or> fst e = step_id ?s" using lgk by auto
  qed
  ultimately show ?case by auto
qed




section \<open>Fail-fast\<close>

lemma run_tool_Inr:
  assumes "run_tool tools sid name ps ctx log = (Inr res, log')"
  shows "res \<noteq> JNull"
proof
  assume "res = JNull"
  with assms show False
    by (auto simp: run_tool_def invoke_tool_def
        split: sum.splits if_splits tool_outcome.splits option.splits prod.splits)
qed

lemma executeStep_success:
  assumes "run_tool tools (step_id step) (toolName step) (params step) ctx log = (Inr res, log')"
  shows "executeStep tools step ctx log = (Inr res, step\<lparr>status := Completed, result := Some res\<rparr>, log')"
  using assms by (simp add: executeStep_def Let_def)

lemma executeStep_Inr_nonnull:
  assumes "executeStep tools step ctx log = (Inr res, s', log')"
  shows "res \<noteq> JNull"
proof -
  from assms have "run_tool tools (step_id step) (toolName step) (params step) ctx log = (Inr res, log')"
    by (auto simp: executeStep_def Let_def split: prod.splits sum.splits if_splits)
  then show ?thesis by (rule run_tool_Inr)
qed

lemma updateOperationContext_no_throw:
  assumes "result step = Some res" and "res \<noteq> JNull"
  shows "\<exists>ctx'. updateOperationContext plan step = (None, plan\<lparr>plan_context := ctx'\<rparr>) \<and>
           dom (map_of (plan_context plan)) \<subseteq> dom (map_of ctx')"
proof -
  let ?ctx0 = "AList.update (step_id step) res (plan_context plan)"
  have k0: "dom (map_of (plan_context plan)) \<subseteq> dom (map_of ?ctx0)"
    by (auto simp: update_conv')
  from store_data_result [OF assms(2), of ?ctx0]
  obtain c1 where c1: "store_data (Some res) ?ctx0 = (None, c1)"
    and "dom (map_of ?ctx0) \<subseteq> dom (map_of c1)"
    by auto
  with k0 have k1: "dom (map_of (plan_context plan)) \<subseteq> dom (map_of c1)"
    by blast
  show ?thesis
  proof (cases "toolName step = ''execute_query'' \<or> toolName step = ''execute_mutation''")
    case True
    then have "updateOperationContext plan step = (None, plan\<lparr>plan_context := c1\<rparr>)"
      using assms(1) c1 by (auto simp: updateOperationContext_def Let_def)
    with k1 show ?thesis by blast
  next
    case False
    then have "updateOperationContext plan step = (None, plan\<lparr>plan_context := ?ctx0\<rparr>)"
      using assms(1) by (simp add: updateOperationContext_def Let_def)
    with k0 show ?thesis by blast
  qed
qed

lemma drive_loop_step_succeeds:
  assumes "getNextExecutableStep plan = Some i"
    and "executeStep tools (steps plan ! i) (plan_context plan) log = (Inr res, s', log')"
    and "updateOperationContext (set_step plan i s') s' = (None, plan')"
  shows "drive_loop tools plan log = drive_loop tools plan' log'"
  using assms by (simp add: drive_loop.simps [of tools plan log])

lemma first_step_selected:
  assumes "steps plan = s # rest" and "status s = Pending \<or> status s = Failed" and "dependsOn s = None"
  shows "getNextExecutableStep plan = Some 0"
  using assms by (auto simp: getNextExecutableStep_def scan_steps.simps [of plan 0] is_executable_def)

lemma second_step_selected:
  assumes "steps plan = c # s # rest" and "status c = Completed"
    and "status s = Pending \<or> status s = Failed" and "dependsOn s = None"
  shows "getNextExecutableStep plan = Some 1"
  using assms
  by (auto simp: getNextExecutableStep_def scan_steps.simps [of plan 0]
      scan_steps.simps [of plan "Suc 0"] is_executable_def)

definition selective_tools :: tool_env where
  "selective_tools = (\<lambda>log name p. if name = ''execute_mutation'' then Throws ''denied''
                                      else Returns (JObj [(''data'', JObj [])]))"

definition three_steps :: OperationPlan where
  "three_steps = mk_plan
     [mk_step ''a'' ''execute_query'' (JObj []) None Pending,
      mk_step ''b'' ''execute_mutation'' (JObj []) None Pending,
      mk_step ''c'' ''execute_query'' (JObj []) None Pending]"

text \<open>
  Claim C5. In a plan of three pending steps without dependencies, let the first step
  succeed and the second fail at every attempt. After \<open>n > 0\<close> drives the first step is
  completed, the second has made \<open>n\<close> attempts, and the third is untouched: it is still
  \<^verbatim>\<open>pending\<close>, and no tool was invoked for it (every new entry of the invocation log
  belongs to the first or the second step). As soon as the second step has exhausted
  its retries (\<open>n > maxRetries\<close>), the plan is \<^verbatim>\<open>failed\<close>; until then it is \<^verbatim>\<open>executing\<close>.
\<close>

theorem fail_fast:
  assumes st: "steps plan = [s1, s2, s3]"
    and deps: "dependsOn s1 = None" "dependsOn s2 = None" "dependsOn s3 = None"
    and pend: "status s1 = Pending" "status s2 = Pending" "status s3 = Pending"
    and first: "run_tool tools (step_id s1) (toolName s1) (params s1) (plan_context plan) log = (Inr res, log1)"
    and fails: "always_fails tools s2"
    and zero: "retryCount s2 = 0" and nonneg: "0 \<le> maxRetries s2"
    and n: "0 < n"
  shows "\<exists>msg plan' log'.
           drive_times tools n (plan, log) = (plan', log') \<and>
           steps plan' =
             [s1\<lparr>status := Completed, result := Some res\<rparr>,
              if n \<le> nat (maxRetries s2)
              then s2\<lparr>status := Pending, retryCount := int n,
                       error := Some (''Error (retry '' @ show_int (int n) @ ''/''
                                      @ show_int (maxRetries s2) @ ''): '' @ msg)\<rparr>
              else s2\<lparr>status := Failed, retryCount := int n, error := Some msg\<rparr>,
              s3] \<and>
           plan_status plan' = (if n \<le> nat (maxRetries s2) then Executing else PlanFailed) \<and>
           (\<forall>e \<in> set log'. e \<in> set log \<or> fst e = step_id s1 \<or> fst e = step_id s2)"
proof -
  let ?p0 = "plan\<lparr>plan_status := Executing\<rparr>"
  let ?s1' = "s1\<lparr>status := Completed, result := Some res\<rparr>"
  have sel0: "getNextExecutableStep ?p0 = Some 0"
    by (rule first_step_selected [of _ s1 "[s2, s3]"]) (simp_all add: st pend deps)
  have ex0: "executeStep tools (steps ?p0 ! 0) (plan_context ?p0) log = (Inr res, ?s1', log1)"
    using executeStep_success [OF first] by (simp add: st)
  have nn: "res \<noteq> JNull"
    using first by (rule run_tool_Inr)
  from updateOperationContext_no_throw [of ?s1' res "set_step ?p0 0 ?s1'"] nn
  obtain ctx' where up: "updateOperationContext (set_step ?p0 0 ?s1') ?s1'
      = (None, (set_step ?p0 0 ?s1')\<lparr>plan_context := ctx'\<rparr>)"
    by auto
  define p1 where "p1 = (set_step ?p0 0 ?s1')\<lparr>plan_context := ctx'\<rparr>"
  have d0: "drive_loop tools ?p0 log = drive_loop tools p1 log1"
    unfolding p1_def by (rule drive_loop_step_succeeds [OF sel0 ex0 up])
  have st1: "steps p1 = [?s1', s2, s3]"
    by (simp add: p1_def set_step_def st)
  have ps1: "p1\<lparr>plan_status := Executing\<rparr> = p1"
    by (simp add: p1_def set_step_def)
  have one: "executeOperationPlan tools plan log = executeOperationPlan tools p1 log1"
    using d0 ps1 by (simp add: executeOperationPlan_def)
  have many: "drive_times tools (Suc k) (plan, log) = drive_times tools (Suc k) (p1, log1)" for k
  proof (induction k)
    case 0
    show ?case using one by simp
  next
    case (Suc k)
    then show ?case by simp
  qed
  have sel1: "getNextExecutableStep p1 = Some 1"
    by (rule second_step_selected [of _ ?s1' s2 "[s3]"]) (simp_all add: st1 pend deps)
  have nth1: "steps p1 ! 1 = s2"
    by (simp add: st1)
  from n obtain k where k: "n = Suc k" by (cases n) auto
  have "\<exists>msg lg. drive_times tools n (p1, log1) =
           (p1\<lparr>steps := (steps p1)[1 := after_failures (steps p1 ! 1) n msg],
                  plan_status := (if n = 0 then plan_status p1
                                  else if int n > maxRetries (steps p1 ! 1) then PlanFailed
                                  else Executing)\<rparr>, lg) \<and>
           (\<forall>e \<in> set lg. e \<in> set log1 \<or> fst e = step_id (steps p1 ! 1))"
    by (rule repeated_failure [OF sel1]) (simp_all only: nth1 pend zero fails)
  then obtain msg lg where
    dn: "drive_times tools n (p1, log1) =
           (p1\<lparr>steps := (steps p1)[1 := after_failures s2 n msg],
                  plan_status := (if n = 0 then plan_status p1
                                  else if int n > maxRetries s2 then PlanFailed
                                  else Executing)\<rparr>, lg)"
    and lgn: "\<forall>e \<in> set lg. e \<in> set log1 \<or> fst e = step_id s2"
    unfolding nth1 by blast
  have cmp: "int n > maxRetries s2 \<longleftrightarrow> \<not> n \<le> nat (maxRetries s2)"
    using nonneg by linarith
  have l1: "\<forall>e \<in> set log1. e \<in> set log \<or> fst e = step_id s1"
    using run_tool_log [OF first] by auto
  define pn where "pn = p1\<lparr>steps := (steps p1)[1 := after_failures s2 n msg],
                  plan_status := (if n = 0 then plan_status p1
                                  else if int n > maxRetries s2 then PlanFailed
                                  else Executing)\<rparr>"
  have a: "drive_times tools n (plan, log) = (pn, lg)"
    using many [of k] k dn by (simp add: pn_def)
  have b: "steps pn =
             [?s1',
              if n \<le> nat (maxRetries s2)
              then s2\<lparr>status := Pending, retryCount := int n,
                       error := Some (''Error (retry '' @ show_int (int n) @ ''/''
                                      @ show_int (maxRetries s2) @ ''): '' @ msg)\<rparr>
              else s2\<lparr>status := Failed, retryCount := int n, error := Some msg\<rparr>,
              s3]"
    using n cmp by (simp add: pn_def st1 after_failures_def)
  have c: "plan_status pn = (if n \<le> nat (maxRetries s2) then Executing else PlanFailed)"
    using n cmp by (simp add: pn_def)
  have d: "\<forall>e \<in> set lg. e \<in> set log \<or> fst e = step_id s1 \<or> fst e = step_id s2"
    using lgn l1 by blast
  from a b c d show ?thesis by blast
qed

theorem fail_fast_witness:
  "steps three_steps = [mk_step ''a'' ''execute_query'' (JObj []) None Pending,
      mk_step ''b'' ''execute_mutation'' (JObj []) None Pending,
      mk_step ''c'' ''execute_query'' (JObj []) None Pending] \<and>
   always_fails selective_tools (mk_step ''b'' ''execute_mutation'' (JObj []) None Pending) \<and>
   run_tool selective_tools ''a'' ''execute_query'' (JObj []) [] []
     = (Inr (JObj [(''data'', JObj [])]), [(''a'', ''execute_query'', JObj [])]) \<and>
   steps (fst (drive_times selective_tools 4 (three_steps, []))) ! 2
     = mk_step ''c'' ''execute_query'' (JObj []) None Pending \<and>
   status (steps (fst (drive_times selective_tools 4 (three_steps, []))) ! 1) = Failed \<and>
   plan_status (fst (drive_times selective_tools 4 (three_steps, []))) = PlanFailed \<and>
   map fst (snd (drive_times selective_tools 4 (three_steps, []))) = [''a'', ''b'', ''b'', ''b'', ''b'']"
proof -
  let ?s1 = "mk_step ''a'' ''execute_query'' (JObj []) None Pending"
  let ?s2 = "mk_step ''b'' ''execute_mutation'' (JObj []) None Pending"
  let ?s3 = "mk_step ''c'' ''execute_query'' (JObj []) None Pending"
  have st: "steps three_steps = [?s1, ?s2, ?s3]"
    by (simp add: three_steps_def mk_plan_def)
  have f: "always_fails selective_tools ?s2"
    by (simp add: always_fails_def run_tool_def invoke_tool_def selective_tools_def mk_step_def
        empty_params_resolve)
  have r: "run_tool selective_tools (step_id ?s1) (toolName ?s1) (params ?s1) (plan_context three_steps) []
     = (Inr (JObj [(''data'', JObj [])]), [(''a'', ''execute_query'', JObj [])])"
    by (simp add: run_tool_def invoke_tool_def selective_tools_def mk_step_def empty_params_resolve
        three_steps_def mk_plan_def)
  have r': "run_tool selective_tools ''a'' ''execute_query'' (JObj []) [] []
     = (Inr (JObj [(''data'', JObj [])]), [(''a'', ''execute_query'', JObj [])])"
    using r by (simp add: mk_step_def three_steps_def mk_plan_def)
  have m: "maxRetries ?s2 = 3" "step_id ?s1 = ''a''" "step_id ?s2 = ''b''"
    by (simp_all add: mk_step_def)
  from fail_fast [OF st _ _ _ _ _ _ r f, of 4]
  obtain msg plan' log' where
    "drive_times selective_tools 4 (three_steps, []) = (plan', log')"
    "steps plan' = [?s1\<lparr>status := Completed, result := Some (JObj [(''data'', JObj [])])\<rparr>,
                    ?s2\<lparr>status := Failed, retryCount := 4, error := Some msg\<rparr>, ?s3]"
    "plan_status plan' = PlanFailed"
    "\<forall>e \<in> set log'. e \<in> set [] \<or> fst e = ''a'' \<or> fst e = ''b''"
    by (auto simp: m mk_step_def)
  moreover have "map fst (snd (drive_times selective_tools 4 (three_steps, [])))
                   = [''a'', ''b'', ''b'', ''b'', ''b'']"
    by code_simp
  ultimately show ?thesis
    using st f r' by auto
qed

section \<open>Status transitions of a step\<close>

lemma executeStep_Inl_shape:
  assumes "executeStep tools step ctx log = (Inl msg, s', log')"
  shows "s' = failed_attempt step msg"
  using assms
  by (auto simp: executeStep_def failed_attempt_def Let_def split: prod.splits sum.splits if_splits)

text \<open>One iteration of the drive loop.\<close>

lemma drive_loop_cases:
  obtains
    (finished) "getNextExecutableStep plan = None"
      and "drive_loop tools plan log = (finish_plan plan, log)"
  | (failure) i msg log' where "getNextExecutableStep plan = Some i"
      and "drive_loop tools plan log =
             (if status (failed_attempt (steps plan ! i) msg) = Failed
              then (set_step plan i (failed_attempt (steps plan ! i) msg))\<lparr>plan_status := PlanFailed\<rparr>
              else set_step plan i (failed_attempt (steps plan ! i) msg), log')"
  | (success) i res log' ctx' where "getNextExecutableStep plan = Some i"
      and "drive_loop tools plan log =
             drive_loop tools
               ((set_step plan i ((steps plan ! i)\<lparr>status := Completed, result := Some res\<rparr>))
                  \<lparr>plan_context := ctx'\<rparr>) log'"
      and "dom (map_of (plan_context plan)) \<subseteq> dom (map_of ctx')"
proof (cases "getNextExecutableStep plan")
  case None
  then have "drive_loop tools plan log = (finish_plan plan, log)"
    by (simp add: drive_loop.simps [of tools plan log])
  with None show ?thesis by (rule finished)
next
  case (Some i)
  obtain r s' log' where ex: "executeStep tools (steps plan ! i) (plan_context plan) log = (r, s', log')"
    by (cases "executeStep tools (steps plan ! i) (plan_context plan) log")
  show ?thesis
  proof (cases r)
    case (Inl msg)
    with ex have s': "s' = failed_attempt (steps plan ! i) msg"
      by (auto dest: executeStep_Inl_shape)
    from drive_loop_step_fails [OF Some] ex Inl s'
    have "drive_loop tools plan log =
             (if status (failed_attempt (steps plan ! i) msg) = Failed
              then (set_step plan i (failed_attempt (steps plan ! i) msg))\<lparr>plan_status := PlanFailed\<rparr>
              else set_step plan i (failed_attempt (steps plan ! i) msg), log')"
      by simp
    with Some show ?thesis by (rule failure)
  next
    case (Inr res)
    with ex have s': "s' = (steps plan ! i)\<lparr>status := Completed, result := Some res\<rparr>"
      by (auto dest: executeStep_Inr)
    from ex Inr have nn: "res \<noteq> JNull"
      by (auto dest: executeStep_Inr_nonnull)
    from updateOperationContext_no_throw [of s' res "set_step plan i s'"] s' nn
    obtain ctx' where up: "updateOperationContext (set_step plan i s') s'
        = (None, (set_step plan i s')\<lparr>plan_context := ctx'\<rparr>)"
      and keys: "dom (map_of (plan_context plan)) \<subseteq> dom (map_of ctx')"
      by (auto simp: set_step_def)
    from ex Inr have ex': "executeStep tools (steps plan ! i) (plan_context plan) log = (Inr res, s', log')"
      by simp
    have "drive_loop tools plan log = drive_loop tools ((set_step plan i s')\<lparr>plan_context := ctx'\<rparr>) log'"
      by (rule drive_loop_step_succeeds [OF Some ex' up])
    with Some show ?thesis using keys unfolding s' by (rule success)
  qed
qed

text \<open>
  One execution of a step, as \<^verbatim>\<open>executeStep\<close> leaves it: completed with the result
  stored, or with \<^verbatim>\<open>retryCount\<close> incremented and an error recorded, \<^verbatim>\<open>pending\<close> while the
  new count does not exceed \<^verbatim>\<open>maxRetries\<close> and \<^verbatim>\<open>failed\<close> otherwise.
\<close>

definition one_attempt :: "OperationStep \<Rightarrow> OperationStep \<Rightarrow> bool" where
  "one_attempt s s' =
     ((s' = s\<lparr>status := Completed, result := result s'\<rparr> \<and> result s' \<noteq> None) \<or>
      (s' = s\<lparr>status := (if retryCount s + 1 > maxRetries s then Failed else Pending),
              retryCount := retryCount s + 1, error := error s'\<rparr> \<and> error s' \<noteq> None))"

definition step_moved :: "OperationStep \<Rightarrow> OperationStep \<Rightarrow> bool" where
  "step_moved s s' =
     (s' = s \<or> ((status s = Pending \<or> status s = Failed) \<and> one_attempt s s'))"

lemma one_attempt_success: "one_attempt s (s\<lparr>status := Completed, result := Some res\<rparr>)"
  by (simp add: one_attempt_def)

lemma one_attempt_failure: "one_attempt s (failed_attempt s msg)"
  by (simp add: one_attempt_def failed_attempt_def)

lemma status_failed_attempt: "status (failed_attempt s msg) \<noteq> Completed"
  by (simp add: failed_attempt_def)

lemma selected_status:
  assumes "getNextExecutableStep plan = Some i"
  shows "status (steps plan ! i) = Pending \<or> status (steps plan ! i) = Failed"
  using getNextExecutableStep_Some(3,4) [OF assms] by (cases "status (steps plan ! i)") auto

lemma step_moved_completed: "status s = Completed \<Longrightarrow> step_moved s s' \<Longrightarrow> s' = s"
  by (auto simp: step_moved_def)

lemma steps_finish_plan: "steps (finish_plan plan) = steps plan"
  by (simp add: finish_plan_def)

lemma drive_loop_steps:
  "length (steps (fst (drive_loop tools plan log))) = length (steps plan) \<and>
   (\<forall>j < length (steps plan). step_moved (steps plan ! j) (steps (fst (drive_loop tools plan log)) ! j))"
proof (induction "length (filter (\<lambda>x. status x \<noteq> Completed) (steps plan))"
    arbitrary: plan log rule: less_induct)
  case less
  show ?case
  proof (cases rule: drive_loop_cases [of plan tools log])
    case finished
    then show ?thesis
      by (simp add: steps_finish_plan step_moved_def)
  next
    case (failure i msg log')
    let ?s' = "failed_attempt (steps plan ! i) msg"
    from failure(2) have st: "steps (fst (drive_loop tools plan log)) = (steps plan)[i := ?s']"
      by (simp add: set_step_def)
    have "step_moved (steps plan ! j) ((steps plan)[i := ?s'] ! j)" if "j < length (steps plan)" for j
    proof (cases "j = i")
      case True
      with that selected_status [OF failure(1)] one_attempt_failure show ?thesis
        by (simp add: step_moved_def)
    next
      case False
      then show ?thesis by (simp add: step_moved_def)
    qed
    with st show ?thesis by simp
  next
    case (success i res log' ctx')
    let ?s' = "(steps plan ! i)\<lparr>status := Completed, result := Some res\<rparr>"
    let ?p1 = "(set_step plan i ?s')\<lparr>plan_context := ctx'\<rparr>"
    have i: "i < length (steps plan)" and nc: "status (steps plan ! i) \<noteq> Completed"
      using getNextExecutableStep_Some [OF success(1)] by simp_all
    have st1: "steps ?p1 = (steps plan)[i := ?s']"
      by (simp add: set_step_def)
    have "length (filter (\<lambda>x. status x \<noteq> Completed) (steps ?p1))
            < length (filter (\<lambda>x. status x \<noteq> Completed) (steps plan))"
      unfolding st1 by (rule completing_decreases [OF i nc]) simp
    from less [OF this, of log'] success(2)
    have len: "length (steps (fst (drive_loop tools plan log))) = length (steps ?p1)"
      and mv: "\<forall>j < length (steps ?p1). step_moved (steps ?p1 ! j) (steps (fst (drive_loop tools plan log)) ! j)"
      by simp_all
    have "step_moved (steps plan ! j) (steps (fst (drive_loop tools plan log)) ! j)"
      if j: "j < length (steps plan)" for j
    proof (cases "j = i")
      case True
      from mv j have "step_moved (steps ?p1 ! j) (steps (fst (drive_loop tools plan log)) ! j)"
        by (simp add: st1)
      with True i have "step_moved ?s' (steps (fst (drive_loop tools plan log)) ! i)"
        by (simp add: st1)
      then have "steps (fst (drive_loop tools plan log)) ! i = ?s'"
        by (rule step_moved_completed [rotated]) simp
      with True selected_status [OF success(1)] one_attempt_success [of "steps plan ! i" res]
      show ?thesis
        by (simp add: step_moved_def)
    next
      case False
      from mv j have "step_moved (steps ?p1 ! j) (steps (fst (drive_loop tools plan log)) ! j)"
        by (simp add: st1)
      with False show ?thesis by (simp add: st1)
    qed
    with len show ?thesis by (simp add: st1)
  qed
qed

definition recovering_tools :: tool_env where
  "recovering_tools = (\<lambda>log name p. if length log < 4 then Throws ''timeout''
                                       else Returns (JObj [(''data'', JObj [])]))"

text \<open>
  Claim C4 says that \<^verbatim>\<open>failed\<close> is terminal for a step. The scheduler skips only
  \<^verbatim>\<open>completed\<close> and \<^verbatim>\<open>running\<close> steps, so a failed step is executed again when the plan
  is driven again: against a tool that throws four times and then answers, the step is
  \<^verbatim>\<open>failed\<close> after four drives and \<^verbatim>\<open>completed\<close> after the fifth.
\<close>

theorem failed_step_counterexample:
  "status (steps (fst (drive_times recovering_tools 4 (mk_plan [query_step], []))) ! 0) = Failed \<and>
   status (steps (fst (drive_times recovering_tools 5 (mk_plan [query_step], []))) ! 0) = Completed"
  by code_simp

text \<open>
  Claim C4, amended. A drive keeps the number of steps, and it leaves each step either
  untouched or takes it through exactly one execution: the step was \<^verbatim>\<open>pending\<close> or
  \<^verbatim>\<open>failed\<close>, and it is now \<^verbatim>\<open>completed\<close> with its result, or \<^verbatim>\<open>pending\<close> with
  \<^verbatim>\<open>retryCount\<close> incremented and an error recorded, or \<^verbatim>\<open>failed\<close> (\<open>one_attempt\<close>). A step
  that is \<^verbatim>\<open>completed\<close> (or \<^verbatim>\<open>running\<close>) is never touched: \<^verbatim>\<open>completed\<close> is terminal.
\<close>

theorem step_transitions:
  assumes "executeOperationPlan tools plan log = (plan', log')" and "j < length (steps plan)"
  shows "length (steps plan') = length (steps plan) \<and>
         (status (steps plan ! j) = Completed \<or> status (steps plan ! j) = Running
            \<longrightarrow> steps plan' ! j = steps plan ! j) \<and>
         (steps plan' ! j = steps plan ! j \<or>
          ((status (steps plan ! j) = Pending \<or> status (steps plan ! j) = Failed) \<and>
           one_attempt (steps plan ! j) (steps plan' ! j)))"
proof -
  let ?p = "plan\<lparr>plan_status := Executing\<rparr>"
  from assms(1) have p': "plan' = fst (drive_loop tools ?p log)"
    by (simp add: executeOperationPlan_def)
  from drive_loop_steps [of tools ?p log] assms(2) p'
  have "length (steps plan') = length (steps plan)"
    and "step_moved (steps plan ! j) (steps plan' ! j)"
    by simp_all
  then show ?thesis
    by (auto simp: step_moved_def)
qed

theorem step_transitions_witness:
  "executeOperationPlan failing_tools (mk_plan [query_step]) []
     = ((mk_plan [query_step\<lparr>status := Pending, retryCount := 1,
                    error := Some ''Error (retry 1/3): timeout''\<rparr>])\<lparr>plan_status := Executing\<rparr>,
        [(''q'', ''execute_query'', JObj [])]) \<and>
   0 < length (steps (mk_plan [query_step])) \<and>
   status (steps (mk_plan [query_step]) ! 0) = Pending \<and>
   one_attempt query_step
     (query_step\<lparr>status := Pending, retryCount := 1, error := Some ''Error (retry 1/3): timeout''\<rparr>)"
proof -
  have e: "executeOperationPlan failing_tools (mk_plan [query_step]) []
     = ((mk_plan [query_step\<lparr>status := Pending, retryCount := 1,
                    error := Some ''Error (retry 1/3): timeout''\<rparr>])\<lparr>plan_status := Executing\<rparr>,
        [(''q'', ''execute_query'', JObj [])])"
    by code_simp
  have l: "0 < length (steps (mk_plan [query_step]))"
    by (simp add: mk_plan_def)
  from step_transitions [OF e l] e l show ?thesis
    by (simp add: mk_plan_def query_step_def mk_step_def)
qed

section \<open>The context along a drive\<close>

text \<open>
  \<open>folded_into step res ctx ctx'\<close>: the context \<open>ctx'\<close> is \<open>ctx\<close> with the result \<open>res\<close> of
  \<open>step\<close> folded in, as \<^verbatim>\<open>updateOperationContext\<close> does it (\<open>updateOperationContext_fold\<close>).
\<close>

definition folded_into :: "OperationStep \<Rightarrow> json \<Rightarrow> op_context \<Rightarrow> op_context \<Rightarrow> bool" where
  "folded_into step res ctx ctx' =
     (\<forall>k. map_of ctx' k =
        (case map_of (rev (copied_entries step res)) k of
           Some v \<Rightarrow> Some v
         | None \<Rightarrow> if k = step_id step then Some res else map_of ctx k))"

text \<open>
  The calls \<^verbatim>\<open>executeStep(nextStep, plan.context)\<close> that the loop of
  \<^verbatim>\<open>executeOperationPlan\<close> makes, in order: the step as it is passed, the context that
  is passed (against which \<^verbatim>\<open>processStepParameters\<close> resolves the parameters of the step)
  and the outcome, a thrown message or the result of the tool. The function follows
  \<open>drive_loop\<close> branch by branch.
\<close>

type_synonym execution = "OperationStep \<times> op_context \<times> (string + json)"

function step_executions :: "tool_env \<Rightarrow> OperationPlan \<Rightarrow> invocation list \<Rightarrow> execution list" where
  "step_executions tools plan log =
     (case getNextExecutableStep plan of
        None \<Rightarrow> []
      | Some i \<Rightarrow>
          (case executeStep tools (steps plan ! i) (plan_context plan) log of
             (Inr res, nextStep, log') \<Rightarrow>
               (steps plan ! i, plan_context plan, Inr res) #
               (case updateOperationContext (set_step plan i nextStep) nextStep of
                  (None, plan') \<Rightarrow> step_executions tools plan' log'
                | (Some e, plan') \<Rightarrow> [])
           | (Inl msg, nextStep, log') \<Rightarrow> [(steps plan ! i, plan_context plan, Inl msg)]))"
  by pat_completeness auto
termination
proof (relation "measure (\<lambda>(tools, plan, log). length (filter (\<lambda>x. status x \<noteq> Completed) (steps plan)))")
  show "wf (measure (\<lambda>(tools, plan, log). length (filter (\<lambda>x. status x \<noteq> Completed) (steps plan))))"
    by simp
next
  fix tools :: tool_env and plan :: OperationPlan and log :: "invocation list"
    and i x y res nextStep log' xa plan'
  assume sel: "getNextExecutableStep plan = Some i"
    and ex: "(x, y) = executeStep tools (steps plan ! i) (plan_context plan) log"
    and y: "(nextStep, log') = y" and x: "x = Inr res"
    and up: "(xa, plan') = updateOperationContext (set_step plan i nextStep) nextStep"
  from getNextExecutableStep_Some [OF sel]
  have i: "i < length (steps plan)" and nc: "status (steps plan ! i) \<noteq> Completed"
    by simp_all
  from ex y x have "executeStep tools (steps plan ! i) (plan_context plan) log = (Inr res, nextStep, log')"
    by simp
  then have c: "status nextStep = Completed"
    by (auto dest: executeStep_Inr)
  from up have "steps plan' = (steps plan)[i := nextStep]"
    using updateOperationContext_steps [of "set_step plan i nextStep" nextStep xa plan']
    by (simp add: set_step_def)
  with completing_decreases [OF i nc c]
  show "((tools, plan', log'), (tools, plan, log))
         \<in> measure (\<lambda>(tools, plan, log). length (filter (\<lambda>x. status x \<noteq> Completed) (steps plan)))"
    by simp
qed

declare step_executions.simps [simp del]

definition drive_executions :: "tool_env \<Rightarrow> OperationPlan \<Rightarrow> invocation list \<Rightarrow> execution list" where
  "drive_executions tools plan log = step_executions tools (plan\<lparr>plan_status := Executing\<rparr>) log"


text \<open>
  The tool invocation that the execution of \<open>step\<close> against the context \<open>ctx\<close> makes: none
  when \<^verbatim>\<open>processStepParameters\<close> throws or the tool is not one of the three that the
  \<^verbatim>\<open>switch\<close> of \<^verbatim>\<open>executeStep\<close> calls, and otherwise the call of the tool with the
  parameters of the step resolved against \<open>ctx\<close>.
\<close>

definition step_invocation :: "OperationStep \<Rightarrow> op_context \<Rightarrow> invocation list" where
  "step_invocation step ctx =
     (case processStepParameters (params step) ctx of
        Inl e \<Rightarrow> []
      | Inr processedParams \<Rightarrow>
          if toolName step = ''execute_query'' \<or> toolName step = ''execute_mutation''
             \<or> toolName step = ''introspect_schema''
          then [(step_id step, toolName step, processedParams)] else [])"

lemma run_tool_invocation:
  "snd (run_tool tools sid name ps ctx log) =
     log @ (case processStepParameters ps ctx of
              Inl e \<Rightarrow> []
            | Inr p \<Rightarrow> if name = ''execute_query'' \<or> name = ''execute_mutation''
                           \<or> name = ''introspect_schema''
                        then [(sid, name, p)] else [])"
  by (simp add: run_tool_def invoke_tool_def
      split: sum.splits tool_outcome.splits option.splits prod.splits)

lemma executeStep_invocation:
  "snd (snd (executeStep tools step ctx log)) = log @ step_invocation step ctx"
proof -
  have "snd (snd (executeStep tools step ctx log))
          = snd (run_tool tools (step_id step) (toolName step) (params step) ctx log)"
    by (simp add: executeStep_def Let_def split: prod.splits sum.splits)
  then show ?thesis
    by (simp add: run_tool_invocation step_invocation_def)
qed

text \<open>One iteration of the loop, with the execution it adds.\<close>

lemma iteration_cases:
  obtains
    (finished) "getNextExecutableStep plan = None"
      and "drive_loop tools plan log = (finish_plan plan, log)"
      and "step_executions tools plan log = []"
  | (failure) i msg s' log' where "getNextExecutableStep plan = Some i"
      and "executeStep tools (steps plan ! i) (plan_context plan) log = (Inl msg, s', log')"
      and "plan_context (fst (drive_loop tools plan log)) = plan_context plan"
      and "steps (fst (drive_loop tools plan log)) = (steps plan)[i := s']"
      and "status s' \<noteq> Completed"
      and "step_executions tools plan log = [(steps plan ! i, plan_context plan, Inl msg)]"
      and "snd (drive_loop tools plan log) = log'"
  | (success) i res log' ctx' where "getNextExecutableStep plan = Some i"
      and "executeStep tools (steps plan ! i) (plan_context plan) log
             = (Inr res, (steps plan ! i)\<lparr>status := Completed, result := Some res\<rparr>, log')"
      and "folded_into (steps plan ! i) res (plan_context plan) ctx'"
      and "drive_loop tools plan log =
             drive_loop tools
               ((set_step plan i ((steps plan ! i)\<lparr>status := Completed, result := Some res\<rparr>))
                  \<lparr>plan_context := ctx'\<rparr>) log'"
      and "step_executions tools plan log =
             (steps plan ! i, plan_context plan, Inr res) #
             step_executions tools
               ((set_step plan i ((steps plan ! i)\<lparr>status := Completed, result := Some res\<rparr>))
                  \<lparr>plan_context := ctx'\<rparr>) log'"
proof (cases "getNextExecutableStep plan")
  case None
  then have "drive_loop tools plan log = (finish_plan plan, log)"
    and "step_executions tools plan log = []"
    by (simp_all add: drive_loop.simps [of tools plan log] step_executions.simps [of tools plan log])
  with None show ?thesis by (rule finished)
next
  case (Some i)
  obtain r s' log' where ex: "executeStep tools (steps plan ! i) (plan_context plan) log = (r, s', log')"
    by (cases "executeStep tools (steps plan ! i) (plan_context plan) log")
  show ?thesis
  proof (cases r)
    case (Inl msg)
    with ex have ex': "executeStep tools (steps plan ! i) (plan_context plan) log = (Inl msg, s', log')"
      by simp
    then have s': "s' = failed_attempt (steps plan ! i) msg"
      by (rule executeStep_Inl_shape)
    have d: "drive_loop tools plan log =
           (if status s' = Failed then (set_step plan i s')\<lparr>plan_status := PlanFailed\<rparr>
            else set_step plan i s', log')"
      by (rule drive_loop_step_fails [OF Some ex'])
    have a: "plan_context (fst (drive_loop tools plan log)) = plan_context plan"
      and b: "steps (fst (drive_loop tools plan log)) = (steps plan)[i := s']"
      by (simp_all add: d set_step_def)
    have c: "status s' \<noteq> Completed"
      unfolding s' by (rule status_failed_attempt)
    have e: "step_executions tools plan log = [(steps plan ! i, plan_context plan, Inl msg)]"
      by (simp add: step_executions.simps [of tools plan log] Some ex')
    have g: "snd (drive_loop tools plan log) = log'"
      by (simp add: d)
    show ?thesis
      by (rule failure [OF Some ex' a b c e g])
  next
    case (Inr res)
    let ?s = "(steps plan ! i)\<lparr>status := Completed, result := Some res\<rparr>"
    from ex Inr have ex0: "executeStep tools (steps plan ! i) (plan_context plan) log = (Inr res, s', log')"
      by simp
    then have s': "s' = ?s"
      by (rule executeStep_Inr)
    from ex0 have nn: "res \<noteq> JNull"
      by (rule executeStep_Inr_nonnull)
    from updateOperationContext_fold [of ?s res "set_step plan i ?s"] nn
    obtain plan' where up: "updateOperationContext (set_step plan i ?s) ?s = (None, plan')"
      and p': "plan' = (set_step plan i ?s)\<lparr>plan_context := plan_context plan'\<rparr>"
      and m: "\<forall>k. map_of (plan_context plan') k =
              (case map_of (rev (copied_entries ?s res)) k of
                 Some v \<Rightarrow> Some v
               | None \<Rightarrow> if k = step_id ?s then Some res else map_of (plan_context (set_step plan i ?s)) k)"
      by auto
    have ce: "copied_entries ?s res = copied_entries (steps plan ! i) res"
      by (simp add: copied_entries_def)
    from m have f: "folded_into (steps plan ! i) res (plan_context plan) (plan_context plan')"
      by (simp add: folded_into_def ce set_step_def cong: option.case_cong)
    from ex0 s' have ex1: "executeStep tools (steps plan ! i) (plan_context plan) log = (Inr res, ?s, log')"
      by simp
    have d: "drive_loop tools plan log = drive_loop tools plan' log'"
      by (rule drive_loop_step_succeeds [OF Some ex1 up])
    have e: "step_executions tools plan log =
               (steps plan ! i, plan_context plan, Inr res) # step_executions tools plan' log'"
      by (simp add: step_executions.simps [of tools plan log] Some ex1 up)
    from p' have pp: "(set_step plan i ?s)\<lparr>plan_context := plan_context plan'\<rparr> = plan'"
      by simp
    show ?thesis
      by (rule success [OF Some ex1 f]) (simp_all only: d e pp)
  qed
qed

text \<open>
  \<open>contexts_chain c0 tr cf\<close>: the executions \<open>tr\<close> start from the context \<open>c0\<close>, each
  execution that has a successor has completed its step and hands on the context with its
  result folded in, and \<open>cf\<close> is the context after the last execution.
\<close>

fun contexts_chain :: "op_context \<Rightarrow> execution list \<Rightarrow> op_context \<Rightarrow> bool" where
  "contexts_chain c0 [] cf = (cf = c0)"
| "contexts_chain c0 ((s, c, out) # rest) cf =
     (c = c0 \<and>
      (case out of
         Inl msg \<Rightarrow> rest = [] \<and> cf = c0
       | Inr res \<Rightarrow> (\<exists>c1. folded_into s res c0 c1 \<and> contexts_chain c1 rest cf)))"

lemma drive_loop_chain:
  "contexts_chain (plan_context plan) (step_executions tools plan log)
     (plan_context (fst (drive_loop tools plan log)))"
proof (induction "length (filter (\<lambda>x. status x \<noteq> Completed) (steps plan))"
    arbitrary: plan log rule: less_induct)
  case less
  show ?case
  proof (cases rule: iteration_cases [of plan tools log])
    case finished
    then show ?thesis by (simp add: finish_plan_def)
  next
    case (failure i msg s' log')
    then show ?thesis by simp
  next
    case (success i res log' ctx')
    let ?s' = "(steps plan ! i)\<lparr>status := Completed, result := Some res\<rparr>"
    let ?p1 = "(set_step plan i ?s')\<lparr>plan_context := ctx'\<rparr>"
    have i: "i < length (steps plan)" and nc: "status (steps plan ! i) \<noteq> Completed"
      using getNextExecutableStep_Some [OF success(1)] by simp_all
    have st1: "steps ?p1 = (steps plan)[i := ?s']"
      by (simp add: set_step_def)
    have "length (filter (\<lambda>x. status x \<noteq> Completed) (steps ?p1))
            < length (filter (\<lambda>x. status x \<noteq> Completed) (steps plan))"
      unfolding st1 by (rule completing_decreases [OF i nc]) simp
    from less [OF this, of log']
    have "contexts_chain ctx' (step_executions tools ?p1 log')
            (plan_context (fst (drive_loop tools ?p1 log')))"
      by simp
    with success(3) show ?thesis
      unfolding success(4) success(5) by auto
  qed
qed

lemma contexts_chain_hd:
  "contexts_chain c0 tr cf \<Longrightarrow> tr \<noteq> [] \<Longrightarrow> fst (snd (hd tr)) = c0"
  by (cases tr) auto

lemma contexts_chain_consecutive:
  "contexts_chain c0 tr cf \<Longrightarrow> Suc n < length tr \<Longrightarrow> tr ! n = (s, c, out) \<Longrightarrow>
     tr ! Suc n = (s', c', out') \<Longrightarrow> \<exists>res. out = Inr res \<and> folded_into s res c c'"
proof (induction tr arbitrary: c0 n)
  case Nil
  then show ?case by simp
next
  case (Cons e rest)
  obtain s0 k0 out0 where e: "e = (s0, k0, out0)" by (cases e)
  from Cons.prems(2) have rest: "rest \<noteq> []" by auto
  with Cons.prems(1) e obtain res0 c1 where out0: "out0 = Inr res0" and k0: "k0 = c0"
    and f: "folded_into s0 res0 c0 c1" and ch: "contexts_chain c1 rest cf"
    by (cases out0) auto
  show ?case
  proof (cases n)
    case 0
    with Cons.prems(3) e have "s = s0" "c = k0" "out = out0" by simp_all
    moreover from 0 Cons.prems(4) rest have "hd rest = (s', c', out')"
      by (simp add: hd_conv_nth)
    with contexts_chain_hd [OF ch rest] have "c' = c1" by simp
    ultimately show ?thesis using out0 k0 f by simp
  next
    case (Suc m)
    with Cons.prems have "Suc m < length rest" "rest ! m = (s, c, out)" "rest ! Suc m = (s', c', out')"
      by simp_all
    from Cons.IH [OF ch this] show ?thesis .
  qed
qed

lemma contexts_chain_last:
  "contexts_chain c0 tr cf \<Longrightarrow> tr \<noteq> [] \<Longrightarrow> last tr = (s, c, out) \<Longrightarrow>
     (case out of Inl msg \<Rightarrow> cf = c | Inr res \<Rightarrow> folded_into s res c cf)"
proof (induction tr arbitrary: c0)
  case Nil
  then show ?case by simp
next
  case (Cons e rest)
  obtain s0 k0 out0 where e: "e = (s0, k0, out0)" by (cases e)
  show ?case
  proof (cases "rest = []")
    case True
    with Cons.prems e show ?thesis
      by (cases out0) auto
  next
    case False
    with Cons.prems(1) e obtain res0 c1 where ch: "contexts_chain c1 rest cf"
      by (cases out0) auto
    from False Cons.prems(3) have "last rest = (s, c, out)" by simp
    from Cons.IH [OF ch False this] show ?thesis .
  qed
qed

lemma executions_outcome:
  "(s, c, out) \<in> set (step_executions tools plan log) \<Longrightarrow> \<exists>l. fst (executeStep tools s c l) = out"
proof (induction "length (filter (\<lambda>x. status x \<noteq> Completed) (steps plan))"
    arbitrary: plan log rule: less_induct)
  case less
  show ?case
  proof (cases rule: iteration_cases [of plan tools log])
    case finished
    with less.prems show ?thesis by simp
  next
    case (failure i msg s' log')
    with less.prems have "s = steps plan ! i" "c = plan_context plan" "out = Inl msg" by simp_all
    with failure(2) have "fst (executeStep tools s c log) = out" by simp
    then show ?thesis ..
  next
    case (success i res log' ctx')
    let ?s' = "(steps plan ! i)\<lparr>status := Completed, result := Some res\<rparr>"
    let ?p1 = "(set_step plan i ?s')\<lparr>plan_context := ctx'\<rparr>"
    have i: "i < length (steps plan)" and nc: "status (steps plan ! i) \<noteq> Completed"
      using getNextExecutableStep_Some [OF success(1)] by simp_all
    have st1: "steps ?p1 = (steps plan)[i := ?s']"
      by (simp add: set_step_def)
    have dec: "length (filter (\<lambda>x. status x \<noteq> Completed) (steps ?p1))
            < length (filter (\<lambda>x. status x \<noteq> Completed) (steps plan))"
      unfolding st1 by (rule completing_decreases [OF i nc]) simp
    from less.prems success(5)
    consider "(s, c, out) = (steps plan ! i, plan_context plan, Inr res)"
      | "(s, c, out) \<in> set (step_executions tools ?p1 log')"
      by auto
    then show ?thesis
    proof cases
      case 1
      with success(2) have "fst (executeStep tools s c log) = out" by simp
      then show ?thesis ..
    next
      case 2
      from less.hyps [OF dec 2] show ?thesis .
    qed
  qed
qed

lemma executions_completed:
  "(s, c, Inr res) \<in> set (step_executions tools plan log) \<Longrightarrow>
     s\<lparr>status := Completed, result := Some res\<rparr> \<in> set (steps (fst (drive_loop tools plan log)))"
proof (induction "length (filter (\<lambda>x. status x \<noteq> Completed) (steps plan))"
    arbitrary: plan log rule: less_induct)
  case less
  show ?case
  proof (cases rule: iteration_cases [of plan tools log])
    case finished
    with less.prems show ?thesis by simp
  next
    case (failure i msg s' log')
    with less.prems show ?thesis by simp
  next
    case (success i r log' ctx')
    let ?s' = "(steps plan ! i)\<lparr>status := Completed, result := Some r\<rparr>"
    let ?p1 = "(set_step plan i ?s')\<lparr>plan_context := ctx'\<rparr>"
    have i: "i < length (steps plan)" and nc: "status (steps plan ! i) \<noteq> Completed"
      using getNextExecutableStep_Some [OF success(1)] by simp_all
    have st1: "steps ?p1 = (steps plan)[i := ?s']"
      by (simp add: set_step_def)
    have dec: "length (filter (\<lambda>x. status x \<noteq> Completed) (steps ?p1))
            < length (filter (\<lambda>x. status x \<noteq> Completed) (steps plan))"
      unfolding st1 by (rule completing_decreases [OF i nc]) simp
    from less.prems success(5)
    consider "s = steps plan ! i" "res = r"
      | "(s, c, Inr res) \<in> set (step_executions tools ?p1 log')"
      by auto
    then show ?thesis
    proof cases
      case 1
      from drive_loop_steps [of tools ?p1 log']
      have len: "length (steps (fst (drive_loop tools ?p1 log'))) = length (steps plan)"
        by (simp add: st1)
      from i have "i < length (steps ?p1)" by (simp add: st1)
      with drive_loop_steps [of tools ?p1 log', THEN conjunct2, rule_format, of i]
      have mv: "step_moved (steps ?p1 ! i) (steps (fst (drive_loop tools ?p1 log')) ! i)" .
      from i have "steps ?p1 ! i = ?s'" by (simp add: st1)
      with mv have "steps (fst (drive_loop tools ?p1 log')) ! i = ?s'"
        by (auto dest: step_moved_completed [rotated])
      with len i have "?s' \<in> set (steps (fst (drive_loop tools ?p1 log')))"
        by (metis nth_mem)
      with 1 show ?thesis
        unfolding success(4) by simp
    next
      case 2
      from less.hyps [OF dec 2] show ?thesis
        unfolding success(4) .
    qed
  qed
qed

lemma drive_loop_invocations:
  "snd (drive_loop tools plan log)
     = log @ concat (map (\<lambda>(s, c, out). step_invocation s c) (step_executions tools plan log))"
proof (induction "length (filter (\<lambda>x. status x \<noteq> Completed) (steps plan))"
    arbitrary: plan log rule: less_induct)
  case less
  show ?case
  proof (cases rule: iteration_cases [of plan tools log])
    case finished
    then show ?thesis by simp
  next
    case (failure i msg s' log')
    from executeStep_invocation [of tools "steps plan ! i" "plan_context plan" log] failure(2)
    have "log' = log @ step_invocation (steps plan ! i) (plan_context plan)" by simp
    with failure(6) failure(7) show ?thesis by simp
  next
    case (success i res log' ctx')
    let ?s' = "(steps plan ! i)\<lparr>status := Completed, result := Some res\<rparr>"
    let ?p1 = "(set_step plan i ?s')\<lparr>plan_context := ctx'\<rparr>"
    have i: "i < length (steps plan)" and nc: "status (steps plan ! i) \<noteq> Completed"
      using getNextExecutableStep_Some [OF success(1)] by simp_all
    have st1: "steps ?p1 = (steps plan)[i := ?s']"
      by (simp add: set_step_def)
    have "length (filter (\<lambda>x. status x \<noteq> Completed) (steps ?p1))
            < length (filter (\<lambda>x. status x \<noteq> Completed) (steps plan))"
      unfolding st1 by (rule completing_decreases [OF i nc]) simp
    from less [OF this, of log']
    have ih: "snd (drive_loop tools ?p1 log')
        = log' @ concat (map (\<lambda>(s, c, out). step_invocation s c) (step_executions tools ?p1 log'))" .
    from executeStep_invocation [of tools "steps plan ! i" "plan_context plan" log] success(2)
    have "log' = log @ step_invocation (steps plan ! i) (plan_context plan)" by simp
    with ih show ?thesis
      unfolding success(4) success(5) by simp
  qed
qed

text \<open>
  Claim C7, amended. Take the executions of one drive in order (\<open>drive_executions\<close>: the
  step, the context that is passed to \<^verbatim>\<open>executeStep\<close>, the outcome). The first step is
  resolved against the context of the plan. An execution that is followed by another one
  has completed its step, and the next step is resolved against the context with that
  result folded in (\<open>folded_into\<close>): every top-level key of the data payload maps to its
  payload value when the tool is \<^verbatim>\<open>execute_query\<close> or \<^verbatim>\<open>execute_mutation\<close> and the
  payload is truthy (later entries win), the step id maps to the full result unless the
  payload has that key, and every other key keeps its value, so that what earlier steps
  have written is still visible unless it was overwritten. The context of the returned
  plan is the context of the last execution, with its result folded in when it completed
  its step, and the context of the plan when nothing was executed. Every outcome is the
  outcome of \<^verbatim>\<open>executeStep\<close> on the recorded step and context, every step that an
  execution completed is a step of the returned plan, completed with that result, and
  the tools were invoked with exactly the parameters resolved against the recorded
  contexts (\<open>step_invocation\<close>).
\<close>

theorem context_fold:
  assumes "executeOperationPlan tools plan log = (plan', log')"
  shows "(drive_executions tools plan log = [] \<longrightarrow> plan_context plan' = plan_context plan) \<and>
         (drive_executions tools plan log \<noteq> [] \<longrightarrow>
            fst (snd (hd (drive_executions tools plan log))) = plan_context plan) \<and>
         (\<forall>n s c out s' c' out'.
            Suc n < length (drive_executions tools plan log) \<longrightarrow>
            drive_executions tools plan log ! n = (s, c, out) \<longrightarrow>
            drive_executions tools plan log ! Suc n = (s', c', out') \<longrightarrow>
            (\<exists>res. out = Inr res \<and> folded_into s res c c')) \<and>
         (\<forall>s c out.
            drive_executions tools plan log \<noteq> [] \<longrightarrow>
            last (drive_executions tools plan log) = (s, c, out) \<longrightarrow>
            (case out of
               Inl msg \<Rightarrow> plan_context plan' = c
             | Inr res \<Rightarrow> folded_into s res c (plan_context plan'))) \<and>
         (\<forall>s c out.
            (s, c, out) \<in> set (drive_executions tools plan log) \<longrightarrow>
            (\<exists>l. fst (executeStep tools s c l) = out)) \<and>
         (\<forall>s c res.
            (s, c, Inr res) \<in> set (drive_executions tools plan log) \<longrightarrow>
            s\<lparr>status := Completed, result := Some res\<rparr> \<in> set (steps plan')) \<and>
         log' = log @ concat (map (\<lambda>(s, c, out). step_invocation s c) (drive_executions tools plan log))"
proof -
  let ?p = "plan\<lparr>plan_status := Executing\<rparr>"
  let ?tr = "drive_executions tools plan log"
  from assms have p': "plan' = fst (drive_loop tools ?p log)"
    by (simp add: executeOperationPlan_def)
  have tr: "?tr = step_executions tools ?p log"
    by (simp add: drive_executions_def)
  have ch: "contexts_chain (plan_context plan) ?tr (plan_context plan')"
    using drive_loop_chain [of ?p tools log] by (simp add: p' tr)
  have a: "?tr = [] \<longrightarrow> plan_context plan' = plan_context plan"
    using ch by auto
  have b: "?tr \<noteq> [] \<longrightarrow> fst (snd (hd ?tr)) = plan_context plan"
    using contexts_chain_hd [OF ch] by simp
  have c: "\<forall>n s c out s' c' out'.
            Suc n < length ?tr \<longrightarrow> ?tr ! n = (s, c, out) \<longrightarrow> ?tr ! Suc n = (s', c', out') \<longrightarrow>
            (\<exists>res. out = Inr res \<and> folded_into s res c c')"
    using contexts_chain_consecutive [OF ch] by blast
  have d: "\<forall>s c out. ?tr \<noteq> [] \<longrightarrow> last ?tr = (s, c, out) \<longrightarrow>
            (case out of
               Inl msg \<Rightarrow> plan_context plan' = c
             | Inr res \<Rightarrow> folded_into s res c (plan_context plan'))"
    using contexts_chain_last [OF ch] by blast
  have e: "\<forall>s c out. (s, c, out) \<in> set ?tr \<longrightarrow> (\<exists>l. fst (executeStep tools s c l) = out)"
    unfolding tr using executions_outcome by blast
  have f: "\<forall>s c res. (s, c, Inr res) \<in> set ?tr \<longrightarrow>
            s\<lparr>status := Completed, result := Some res\<rparr> \<in> set (steps plan')"
    unfolding tr p' using executions_completed by blast
  from assms have "log' = snd (drive_loop tools ?p log)"
    by (simp add: executeOperationPlan_def)
  then have g: "log' = log @ concat (map (\<lambda>(s, c, out). step_invocation s c) ?tr)"
    unfolding tr by (simp only: drive_loop_invocations)
  from a b c d e f g show ?thesis by blast
qed

theorem context_fold_witness:
  "drive_executions echo_tools lookup_then_update [] =
     [(mk_step ''A'' ''execute_query'' (JObj [(''query'', JStr ''variants'')]) None Pending,
       [],
       Inr (JObj [(''data'', JObj [(''variantId'', JStr ''gid://1'')])])),
      (mk_step ''B'' ''execute_mutation'' (JObj [(''id'', JStr ''{{variantId}}'')]) (Some [''A'']) Pending,
       [(''A'', JObj [(''data'', JObj [(''variantId'', JStr ''gid://1'')])]),
        (''variantId'', JStr ''gid://1'')],
       Inr (JObj [(''data'', JObj [(''updated'', JObj [(''id'', JStr ''gid://1'')])])]))] \<and>
   folded_into (mk_step ''A'' ''execute_query'' (JObj [(''query'', JStr ''variants'')]) None Pending)
     (JObj [(''data'', JObj [(''variantId'', JStr ''gid://1'')])])
     []
     [(''A'', JObj [(''data'', JObj [(''variantId'', JStr ''gid://1'')])]),
      (''variantId'', JStr ''gid://1'')] \<and>
   folded_into (mk_step ''B'' ''execute_mutation'' (JObj [(''id'', JStr ''{{variantId}}'')]) (Some [''A'']) Pending)
     (JObj [(''data'', JObj [(''updated'', JObj [(''id'', JStr ''gid://1'')])])])
     [(''A'', JObj [(''data'', JObj [(''variantId'', JStr ''gid://1'')])]),
      (''variantId'', JStr ''gid://1'')]
     (plan_context (fst (executeOperationPlan echo_tools lookup_then_update []))) \<and>
   snd (executeOperationPlan echo_tools lookup_then_update [])
     = [(''A'', ''execute_query'', JObj [(''query'', JStr ''variants'')]),
        (''B'', ''execute_mutation'', JObj [(''id'', JStr ''gid://1'')])]"
proof -
  let ?sA = "mk_step ''A'' ''execute_query'' (JObj [(''query'', JStr ''variants'')]) None Pending"
  let ?sB = "mk_step ''B'' ''execute_mutation'' (JObj [(''id'', JStr ''{{variantId}}'')]) (Some [''A'']) Pending"
  let ?rA = "JObj [(''data'', JObj [(''variantId'', JStr ''gid://1'')])]"
  let ?rB = "JObj [(''data'', JObj [(''updated'', JObj [(''id'', JStr ''gid://1'')])])]"
  let ?cB = "[(''A'', ?rA), (''variantId'', JStr ''gid://1'')]"
  let ?tr = "drive_executions echo_tools lookup_then_update []"
  have tr: "?tr = [(?sA, [], Inr ?rA), (?sB, ?cB, Inr ?rB)]"
    by code_simp
  have lg: "snd (executeOperationPlan echo_tools lookup_then_update [])
     = [(''A'', ''execute_query'', JObj [(''query'', JStr ''variants'')]),
        (''B'', ''execute_mutation'', JObj [(''id'', JStr ''gid://1'')])]"
    by code_simp
  have e: "executeOperationPlan echo_tools lookup_then_update []
             = (fst (executeOperationPlan echo_tools lookup_then_update []),
                snd (executeOperationPlan echo_tools lookup_then_update []))"
    by simp
  note cf = context_fold [OF e]
  from cf [THEN conjunct2, THEN conjunct2, THEN conjunct1, rule_format,
      of 0 ?sA "[]" "Inr ?rA" ?sB ?cB "Inr ?rB"]
  have a: "folded_into ?sA ?rA [] ?cB"
    by (simp add: tr)
  from cf [THEN conjunct2, THEN conjunct2, THEN conjunct2, THEN conjunct1, rule_format,
      of ?sB ?cB "Inr ?rB"]
  have b: "folded_into ?sB ?rB ?cB (plan_context (fst (executeOperationPlan echo_tools lookup_then_update [])))"
    by (simp add: tr)
  from tr a b lg show ?thesis
    by (simp only: simp_thms)
qed

section \<open>The status of a plan\<close>












text \<open>
  The plans that the engine can hold: a plan in which no step has failed (in particular
  a plan that \<^verbatim>\<open>createOperationPlan\<close> has built, whose steps are all pending), and every
  plan that a drive returns for such a plan, whatever the tools do.
\<close>

inductive reachable :: "OperationPlan \<Rightarrow> bool" where
  initial: "\<not> hasFailedSteps plan \<Longrightarrow> reachable plan"
| driven: "reachable plan \<Longrightarrow> executeOperationPlan tools plan log = (plan', log') \<Longrightarrow> reachable plan'"


lemma create_steps_fresh:
  "create_steps toolCalls = Inr ss \<Longrightarrow>
     \<forall>s \<in> set ss. status s = Pending \<and> retryCount s = 0 \<and> maxRetries s = 3 \<and> dependsOn s = None"
proof (induction toolCalls arbitrary: ss)
  case Nil
  then show ?case by simp
next
  case (Cons toolCall rest)
  show ?case
  proof (cases "call_type toolCall \<noteq> ''function''")
    case True
    with Cons show ?thesis by simp
  next
    case False
    with Cons.prems obtain args ss' where "create_steps rest = Inr ss'"
      and "ss = \<lparr> step_id = call_id toolCall, toolName = function_name toolCall, params = args,
                   dependsOn = None, status = Pending, result = None, error = None,
                   retryCount = 0, maxRetries = 3 \<rparr> # ss'"
      by (auto split: sum.splits)
    with Cons.IH [of ss'] show ?thesis by simp
  qed
qed

lemma created_plan_reachable:
  assumes "createOperationPlan uuid toolCalls msg = Inr plan"
  shows "reachable plan"
proof (rule reachable.initial)
  from assms obtain ss where ss: "create_steps toolCalls = Inr ss" and p: "steps plan = ss"
    by (auto simp: createOperationPlan_def split: sum.splits)
  from create_steps_fresh [OF ss] p show "\<not> hasFailedSteps plan"
    by (auto simp: hasFailedSteps_def list_ex_iff)
qed

subsection \<open>The results of completed steps\<close>

text \<open>
  \<open>payload_key plan k\<close>: the key \<open>k\<close> is a top-level key of a data payload that the fold
  of a completed step of the plan copies into the context. \<open>results_kept plan\<close>: every
  completed step has a result, and the context maps the id of the step to this result,
  unless the id is such a payload key.
\<close>

definition payload_key :: "OperationPlan \<Rightarrow> string \<Rightarrow> bool" where
  "payload_key plan k =
     (\<exists>t \<in> set (steps plan). status t = Completed \<and>
        (case result t of None \<Rightarrow> False | Some rt \<Rightarrow> k \<in> fst ` set (copied_entries t rt)))"

definition results_kept :: "OperationPlan \<Rightarrow> bool" where
  "results_kept plan =
     (\<forall>s \<in> set (steps plan). status s = Completed \<longrightarrow>
        (case result s of
           None \<Rightarrow> False
         | Some res \<Rightarrow> map_of (plan_context plan) (step_id s) = Some res \<or> payload_key plan (step_id s)))"





lemma results_kept_fresh:
  assumes "\<forall>s \<in> set (steps plan). status s \<noteq> Completed"
  shows "results_kept plan"
  using assms by (simp add: results_kept_def)


lemma created_plan_results_kept:
  assumes "createOperationPlan uuid toolCalls msg = Inr plan"
  shows "results_kept plan"
proof (rule results_kept_fresh)
  from assms obtain ss where ss: "create_steps toolCalls = Inr ss" and p: "steps plan = ss"
    by (auto simp: createOperationPlan_def split: sum.splits)
  from create_steps_fresh [OF ss] p show "\<forall>s \<in> set (steps plan). status s \<noteq> Completed"
    by auto
qed







section \<open>The empty plan\<close>

text \<open>
  Claim C10. Driving a plan with no steps invokes no tool (the invocation log is
  unchanged), leaves the context as it was (empty for a freshly created plan) and
  returns the plan with status \<^verbatim>\<open>completed\<close>.
\<close>

theorem empty_plan_completes:
  "executeOperationPlan tools (plan\<lparr>steps := []\<rparr>) log
     = (plan\<lparr>steps := [], plan_status := PlanCompleted\<rparr>, log)"
  by (simp add: executeOperationPlan_def drive_loop.simps getNextExecutableStep_def
      scan_steps.simps finish_plan_def isOperationComplete_def)

end
